theory Spec2Isabelle
  imports Complex_Main "HOL-Library.Monad_Syntax" "HOL-Library.Word" "HOL-Library.Multiset"
begin

section \<open>Cropsicle: a GrowCut cellular automaton (cropsicle.c)\<close>

text \<open>
  The embedding follows \<^verbatim>\<open>cropsicle.c\<close> function by function.

  \<^item> A C array is a list. Every array access of the source goes through \<open>rd\<close> or
    \<open>wr\<close>, which yield \<open>None\<close> outside the array: \<open>None\<close> stands for the undefined
    behaviour of the C program (an access outside an allocated block, a read of memory
    that was never written, an \<^verbatim>\<open>int\<close> product that overflows, the use of the null pointer
    that a failed \<^verbatim>\<open>malloc\<close> returns). All functions therefore return an \<open>option\<close>.
  \<^item> \<^verbatim>\<open>g_array\<close> is the only field that \<^verbatim>\<open>process_file\<close> allocates without clearing
    (its \<^verbatim>\<open>memset\<close> is under \<^verbatim>\<open>#if 0\<close>), so its cells are \<open>real option\<close>: \<open>None\<close> is a
    cell that has not been written, and reading such a cell is undefined behaviour too.
  \<^item> \<^verbatim>\<open>float\<close> values are \<open>real\<close> and the arithmetic of \<^verbatim>\<open>float\<close> is idealised as that of
    \<open>real\<close>: the rounding of the operations is not modelled. There are two exceptions, in
    \<^verbatim>\<open>calc_g\<close>, where a distance is compared with the square root of 3: the constant
    \<^verbatim>\<open>maxC\<close> is the \<^verbatim>\<open>float\<close> that its literal denotes, and \<^verbatim>\<open>sqrtf\<close> returns the \<^verbatim>\<open>float\<close>
    nearest to the square root. \<^verbatim>\<open>png_byte\<close> is \<open>8 word\<close>.
  \<^item> \<^verbatim>\<open>int\<close> indices and coordinates are \<open>int\<close>. The largest values that the program computes
    in \<^verbatim>\<open>int\<close> are the sizes of the fields in \<^verbatim>\<open>process_file\<close>, and those are checked for
    overflow there; where they fit, the indices fit as well. The width and height of an
    image are \<open>nat\<close>: libpng delivers them as unsigned values.
  \<^item> A \<^verbatim>\<open>for\<close> loop over a fixed range is \<open>for_each\<close> over the list of its indices; the
    loops that change their index in the body are recursive functions.
\<close>

subsection \<open>Arrays and loops\<close>

definition rd :: "'a list \<Rightarrow> int \<Rightarrow> 'a option" where
  "rd xs i = (if 0 \<le> i \<and> i < int (length xs) then Some (xs ! nat i) else None)"

definition wr :: "'a list \<Rightarrow> int \<Rightarrow> 'a \<Rightarrow> 'a list option" where
  "wr xs i v = (if 0 \<le> i \<and> i < int (length xs) then Some (xs[nat i := v]) else None)"

text \<open>Reading a cell of \<^verbatim>\<open>g_array\<close>: the cell must exist and must have been written.\<close>

definition rdg :: "real option list \<Rightarrow> int \<Rightarrow> real option" where
  "rdg g i = (case rd g i of None \<Rightarrow> None | Some c \<Rightarrow> c)"

fun for_each :: "'i list \<Rightarrow> ('i \<Rightarrow> 's \<Rightarrow> 's option) \<Rightarrow> 's \<Rightarrow> 's option" where
  "for_each [] body s = Some s"
| "for_each (i # is) body s =
     (case body i s of None \<Rightarrow> None | Some s' \<Rightarrow> for_each is body s')"

subsection \<open>Images\<close>

text \<open>
  \<^verbatim>\<open>Image\<close>: the rows of RGBA bytes, the width and the height (\<^verbatim>\<open>color_type\<close> and
  \<^verbatim>\<open>bit_depth\<close> are only handed from the PNG reader to the PNG writer).
\<close>

record Image =
  rows :: "8 word list list"
  width :: nat
  height :: nat

definition nx8 :: "int list" where
  "nx8 = [-1, 0, 1, -1, 1, -1, 0, 1]"

definition ny8 :: "int list" where
  "ny8 = [-1, -1, -1, 0, 0, 1, 1, 1]"

text \<open>
  \<^verbatim>\<open>get_pixel\<close> returns the four bytes it stores in \<^verbatim>\<open>out\<close>. For coordinates outside
  the image the source stores \<^verbatim>\<open>0xff\<close> in \<^verbatim>\<open>out[0..2]\<close> and then \<^verbatim>\<open>0x00\<close> in \<^verbatim>\<open>out[4]\<close>,
  one past the end of the caller's four-byte array, so that branch is \<open>None\<close>.
\<close>

definition get_pixel :: "Image \<Rightarrow> int \<Rightarrow> int \<Rightarrow> 8 word list option" where
  "get_pixel img x y =
     (if x < 0 \<or> y < 0 \<or> x \<ge> int (width img) \<or> y \<ge> int (height img) then None
      else do {
        row \<leftarrow> rd (rows img) y;
        c0 \<leftarrow> rd row (x * 4);
        c1 \<leftarrow> rd row (x * 4 + 1);
        c2 \<leftarrow> rd row (x * 4 + 2);
        c3 \<leftarrow> rd row (x * 4 + 3);
        Some [c0, c1, c2, c3]
      })"

definition set_pixel :: "Image \<Rightarrow> int \<Rightarrow> int \<Rightarrow> 8 word list \<Rightarrow> Image option" where
  "set_pixel img x y inp =
     (if x < 0 \<or> y < 0 \<or> x \<ge> int (width img) \<or> y \<ge> int (height img) then Some img
      else do {
        row \<leftarrow> rd (rows img) y;
        c0 \<leftarrow> rd inp 0;
        row \<leftarrow> wr row (x * 4) c0;
        c1 \<leftarrow> rd inp 1;
        row \<leftarrow> wr row (x * 4 + 1) c1;
        c2 \<leftarrow> rd inp 2;
        row \<leftarrow> wr row (x * 4 + 2) c2;
        c3 \<leftarrow> rd inp 3;
        row \<leftarrow> wr row (x * 4 + 3) c3;
        rows' \<leftarrow> wr (rows img) y row;
        Some (img\<lparr>rows := rows'\<rparr>)
      })"

subsection \<open>The update of one pixel\<close>

text \<open>
  The state of an iteration step is the pair of \<^verbatim>\<open>overlay_array_out\<close> and the flag
  \<^verbatim>\<open>*converged\<close>.
\<close>

type_synonym step_state = "real list \<times> bool"

definition process_pixel_neighbor_border ::
    "Image \<Rightarrow> int \<Rightarrow> real list \<Rightarrow> real option list \<Rightarrow> int list \<Rightarrow> nat \<Rightarrow>
     step_state \<Rightarrow> step_state option" where
  "process_pixel_neighbor_border img index overlay_array_in g_array neighbor_index_ofs i st =
     (case st of (overlay_array_out, converged) \<Rightarrow> do {
        ofs \<leftarrow> rd neighbor_index_ofs (int i);
        let neighbor_index = index + ofs;
        g \<leftarrow> rdg g_array (index * 8 + int i);
        nb \<leftarrow> rd overlay_array_in neighbor_index;
        cur \<leftarrow> rd overlay_array_out index;
        if \<bar>g * nb\<bar> > \<bar>cur\<bar>
        then do { out' \<leftarrow> wr overlay_array_out index (g * nb); Some (out', False) }
        else Some (overlay_array_out, converged)
      })"

definition process_pixel_border ::
    "Image \<Rightarrow> int \<Rightarrow> int \<Rightarrow> real list \<Rightarrow> real option list \<Rightarrow> int list \<Rightarrow>
     step_state \<Rightarrow> step_state option" where
  "process_pixel_border img x y overlay_array_in g_array neighbor_index_ofs st =
     (case st of (overlay_array_out, converged) \<Rightarrow> do {
        let index = int (width img) * y + x;
        own \<leftarrow> rd overlay_array_in index;
        out1 \<leftarrow> wr overlay_array_out index own;
        for_each [0..<8]
          (\<lambda>i st'.
             if x + nx8 ! i < 0 \<or> x + nx8 ! i \<ge> int (width img) \<or>
                y + ny8 ! i < 0 \<or> y + ny8 ! i \<ge> int (height img)
             then Some st'
             else process_pixel_neighbor_border img index overlay_array_in g_array
                    neighbor_index_ofs i st')
          (out1, converged)
      })"

definition process_pixel_neighbor_internal ::
    "int \<Rightarrow> real list \<Rightarrow> real option list \<Rightarrow> int list \<Rightarrow> nat \<Rightarrow>
     step_state \<Rightarrow> step_state option" where
  "process_pixel_neighbor_internal index overlay_array_in g_array neighbor_index_ofs i st =
     (case st of (overlay_array_out, converged) \<Rightarrow> do {
        ofs \<leftarrow> rd neighbor_index_ofs (int i);
        let neighbor_index = index + ofs;
        g \<leftarrow> rdg g_array (index * 8 + int i);
        nb \<leftarrow> rd overlay_array_in neighbor_index;
        cur \<leftarrow> rd overlay_array_out index;
        if \<bar>g * nb\<bar> > \<bar>cur\<bar>
        then do { out' \<leftarrow> wr overlay_array_out index (g * nb); Some (out', False) }
        else Some (overlay_array_out, converged)
      })"

definition process_pixel_internal ::
    "int \<Rightarrow> real list \<Rightarrow> real option list \<Rightarrow> int list \<Rightarrow>
     step_state \<Rightarrow> step_state option" where
  "process_pixel_internal index overlay_array_in g_array neighbor_index_ofs st =
     (case st of (overlay_array_out, converged) \<Rightarrow> do {
        own \<leftarrow> rd overlay_array_in index;
        out1 \<leftarrow> wr overlay_array_out index own;
        for_each [0..<8]
          (process_pixel_neighbor_internal index overlay_array_in g_array neighbor_index_ofs)
          (out1, converged)
      })"

subsection \<open>One iteration step, with threads\<close>

text \<open>
  The fields of \<^verbatim>\<open>ThreadArgs\<close> are passed as arguments, the shared
  \<^verbatim>\<open>overlay_array_out\<close> as state. \<^verbatim>\<open>N_THREADS\<close> is a parameter of the step
  (\<open>n_threads\<close>, at least 1; \<open>N_THREADS - 1\<close> is the natural number \<open>n_threads - 1\<close>);
  the program is compiled with \<open>N_THREADS = 4\<close>.
\<close>

definition N_THREADS :: nat where
  "N_THREADS = 4"

text \<open>
  The loop of \<^verbatim>\<open>process_iteration_thread\<close>. One round handles the pixels
  \<open>index, \<dots>, index_line_max - 1\<close>, which leaves \<open>index\<close> at \<open>index_line_max\<close> when the
  inner loop ran and unchanged otherwise; then \<open>index\<close> advances by
  \<open>(N_THREADS - 1) * width\<close>, by the \<^verbatim>\<open>index++\<close> of the body and by the \<^verbatim>\<open>index++\<close> of
  the \<^verbatim>\<open>for\<close>.
\<close>

function thread_loop ::
    "nat \<Rightarrow> Image \<Rightarrow> real list \<Rightarrow> real option list \<Rightarrow> int list \<Rightarrow> int \<Rightarrow> int \<Rightarrow>
     step_state \<Rightarrow> step_state option" where
  "thread_loop n_threads img overlay_array_in g_array neighbor_index_ofs index_max index st =
     (if index < index_max then
        (let index_line_max = index + int (width img) - 2 in
         case for_each [index..index_line_max - 1]
                (\<lambda>j. process_pixel_internal j overlay_array_in g_array neighbor_index_ofs) st of
           None \<Rightarrow> None
         | Some st' \<Rightarrow>
             thread_loop n_threads img overlay_array_in g_array neighbor_index_ofs index_max
               (max index index_line_max + int (n_threads - 1) * int (width img) + 1 + 1) st')
      else Some st)"
  by pat_completeness auto
termination
  apply (relation "measure (\<lambda>(n_threads, img, overlay_array_in, g_array, neighbor_index_ofs,
        index_max, index, st). nat (index_max - index))")
   apply simp
  subgoal premises prems
    for n_threads img overlay_array_in g_array neighbor_index_ofs index_max index
  proof -
    obtain k where k: "int (n_threads - Suc 0) * int (width img) = k" "0 \<le> k"
      by simp
    with prems show ?thesis by simp
  qed
  done

declare thread_loop.simps [simp del]

definition process_iteration_thread ::
    "nat \<Rightarrow> Image \<Rightarrow> real list \<Rightarrow> real option list \<Rightarrow> int list \<Rightarrow> int \<Rightarrow> nat \<Rightarrow>
     real list \<Rightarrow> step_state option" where
  "process_iteration_thread n_threads img overlay_array_in g_array neighbor_index_ofs
       index_max thread_n overlay_array_out =
     thread_loop n_threads img overlay_array_in g_array neighbor_index_ofs index_max
       (int (width img) + int thread_n * int (width img) + 1) (overlay_array_out, True)"

definition process_iteration_borders_thread ::
    "Image \<Rightarrow> real list \<Rightarrow> real option list \<Rightarrow> int list \<Rightarrow> real list \<Rightarrow>
     step_state option" where
  "process_iteration_borders_thread img overlay_array_in g_array neighbor_index_ofs
       overlay_array_out = do {
     s1 \<leftarrow> for_each [0..int (width img) - 1]
       (\<lambda>x. process_pixel_border img x 0 overlay_array_in g_array neighbor_index_ofs)
       (overlay_array_out, True);
     s2 \<leftarrow> for_each [0..int (width img) - 1]
       (\<lambda>x. process_pixel_border img x (int (height img) - 1) overlay_array_in g_array
              neighbor_index_ofs) s1;
     s3 \<leftarrow> for_each [1..int (height img) - 2]
       (\<lambda>y. process_pixel_border img 0 y overlay_array_in g_array neighbor_index_ofs) s2;
     for_each [1..int (height img) - 2]
       (\<lambda>y. process_pixel_border img (int (width img) - 1) y overlay_array_in g_array
              neighbor_index_ofs) s3
   }"

definition neighbor_offsets :: "Image \<Rightarrow> int list" where
  "neighbor_offsets img = map (\<lambda>i. nx8 ! i + ny8 ! i * int (width img)) [0..<8]"

text \<open>
  The workers that \<^verbatim>\<open>process_iteration\<close> creates: \<open>n_threads\<close> interior threads and the
  border thread, each a function of the shared \<^verbatim>\<open>overlay_array_out\<close> that returns its
  own \<^verbatim>\<open>converged\<close>.
\<close>

definition workers ::
    "nat \<Rightarrow> Image \<Rightarrow> real list \<Rightarrow> real option list \<Rightarrow>
     (real list \<Rightarrow> step_state option) list" where
  "workers n_threads img overlay_array_in g_array =
     (let index_max = (int (height img) - 1) * int (width img) - 1;
          neighbor_index_ofs = neighbor_offsets img
      in map (process_iteration_thread n_threads img overlay_array_in g_array
                neighbor_index_ofs index_max) [0..<n_threads]
         @ [process_iteration_borders_thread img overlay_array_in g_array neighbor_index_ofs])"

text \<open>
  Creating and joining the threads: the workers act on the shared buffer one after the
  other, in the order of the list (a schedule), and each result is combined by
  \<^verbatim>\<open>converged &= ret\<close>.
\<close>

fun run_threads ::
    "(real list \<Rightarrow> step_state option) list \<Rightarrow> real list \<Rightarrow> bool \<Rightarrow> step_state option" where
  "run_threads [] overlay_array_out converged = Some (overlay_array_out, converged)"
| "run_threads (t # ts) overlay_array_out converged =
     (case t overlay_array_out of
        None \<Rightarrow> None
      | Some (out', ret) \<Rightarrow> run_threads ts out' (converged \<and> ret))"

definition process_iteration ::
    "nat \<Rightarrow> Image \<Rightarrow> real list \<Rightarrow> real list \<Rightarrow> real list \<Rightarrow> real option list \<Rightarrow>
     step_state option" where
  "process_iteration n_threads img image_array overlay_array_in overlay_array_out g_array =
     run_threads (workers n_threads img overlay_array_in g_array) overlay_array_out True"

subsection \<open>One iteration step, without threads\<close>

text \<open>The \<^verbatim>\<open>process_iteration\<close> of the \<^verbatim>\<open>#else\<close> branch and its interior loop.\<close>

function interior_loop ::
    "Image \<Rightarrow> real list \<Rightarrow> real option list \<Rightarrow> int list \<Rightarrow> int \<Rightarrow> int \<Rightarrow>
     step_state \<Rightarrow> step_state option" where
  "interior_loop img overlay_array_in g_array neighbor_index_ofs index_max index st =
     (if index < index_max then
        (let index_line_max = index + int (width img) - 2 in
         case for_each [index..index_line_max - 1]
                (\<lambda>j. process_pixel_internal j overlay_array_in g_array neighbor_index_ofs) st of
           None \<Rightarrow> None
         | Some st' \<Rightarrow>
             interior_loop img overlay_array_in g_array neighbor_index_ofs index_max
               (max index index_line_max + 1 + 1) st')
      else Some st)"
  by pat_completeness auto
termination
  by (relation "measure (\<lambda>(img, overlay_array_in, g_array, neighbor_index_ofs,
        index_max, index, st). nat (index_max - index))") auto

declare interior_loop.simps [simp del]

definition process_iteration_seq ::
    "Image \<Rightarrow> real list \<Rightarrow> real list \<Rightarrow> real list \<Rightarrow> real option list \<Rightarrow>
     step_state option" where
  "process_iteration_seq img image_array overlay_array_in overlay_array_out g_array = do {
     let index_max = (int (height img) - 1) * int (width img) - 1;
     let neighbor_index_ofs = neighbor_offsets img;
     s0 \<leftarrow> interior_loop img overlay_array_in g_array neighbor_index_ofs index_max
             (int (width img) + 1) (overlay_array_out, True);
     s1 \<leftarrow> for_each [0..int (width img) - 1]
       (\<lambda>x. process_pixel_border img x 0 overlay_array_in g_array neighbor_index_ofs) s0;
     s2 \<leftarrow> for_each [0..int (width img) - 1]
       (\<lambda>x. process_pixel_border img x (int (height img) - 1) overlay_array_in g_array
              neighbor_index_ofs) s1;
     s3 \<leftarrow> for_each [1..int (height img) - 2]
       (\<lambda>y. process_pixel_border img 0 y overlay_array_in g_array neighbor_index_ofs) s2;
     for_each [1..int (height img) - 2]
       (\<lambda>y. process_pixel_border img (int (width img) - 1) y overlay_array_in g_array
              neighbor_index_ofs) s3
   }"

subsection \<open>Smoothing and affinities\<close>

definition nx9 :: "int list" where
  "nx9 = [0, -1, 0, 1, -1, 1, -1, 0, 1]"

definition ny9 :: "int list" where
  "ny9 = [0, -1, -1, -1, 0, 0, 1, 1, 1]"

text \<open>
  The body of the two nested loops of \<^verbatim>\<open>blur_image_array\<close> for the pixel \<open>(x, y)\<close>: the
  loop over the nine offsets adds into \<^verbatim>\<open>temp_array\<close> and counts \<^verbatim>\<open>n_pixels\<close>, then the
  three sums are divided by \<^verbatim>\<open>(float) n_pixels\<close>.
\<close>

definition blur_pixel :: "Image \<Rightarrow> real list \<Rightarrow> int \<Rightarrow> int \<Rightarrow> real list \<Rightarrow> real list option" where
  "blur_pixel img array y x temp_array = do {
     let index = (x + y * int (width img)) * 3;
     (temp, n_pixels) \<leftarrow> for_each [0..<9]
       (\<lambda>i (temp, n_pixels).
          if x + nx9 ! i < 0 \<or> x + nx9 ! i \<ge> int (width img) \<or>
             y + ny9 ! i < 0 \<or> y + ny9 ! i \<ge> int (height img)
          then Some (temp, n_pixels)
          else do {
            let neighbor_index = (x + nx9 ! i + (y + ny9 ! i) * int (width img)) * 3;
            t0 \<leftarrow> rd temp index;
            a0 \<leftarrow> rd array neighbor_index;
            temp \<leftarrow> wr temp index (t0 + a0);
            t1 \<leftarrow> rd temp (index + 1);
            a1 \<leftarrow> rd array (neighbor_index + 1);
            temp \<leftarrow> wr temp (index + 1) (t1 + a1);
            t2 \<leftarrow> rd temp (index + 2);
            a2 \<leftarrow> rd array (neighbor_index + 2);
            temp \<leftarrow> wr temp (index + 2) (t2 + a2);
            Some (temp, n_pixels + 1)
          })
       (temp_array, 0 :: int);
     t0 \<leftarrow> rd temp index;
     temp \<leftarrow> wr temp index (t0 / real_of_int n_pixels);
     t1 \<leftarrow> rd temp (index + 1);
     temp \<leftarrow> wr temp (index + 1) (t1 / real_of_int n_pixels);
     t2 \<leftarrow> rd temp (index + 2);
     wr temp (index + 2) (t2 / real_of_int n_pixels)
   }"

text \<open>\<^verbatim>\<open>memcpy (dst, src, n)\<close> on arrays of \<^verbatim>\<open>float\<close>, \<open>n\<close> counted in cells.\<close>

definition memcpy :: "'a list \<Rightarrow> 'a list \<Rightarrow> nat \<Rightarrow> 'a list option" where
  "memcpy dst src n =
     (if n \<le> length dst \<and> n \<le> length src then Some (take n src @ drop n dst) else None)"

definition blur_image_array :: "Image \<Rightarrow> real list \<Rightarrow> real list option" where
  "blur_image_array img array = do {
     let temp_array = replicate (width img * height img * 3) 0;
     temp_array \<leftarrow> for_each [0..int (height img) - 1]
       (\<lambda>y. for_each [0..int (width img) - 1] (blur_pixel img array y)) temp_array;
     memcpy array temp_array (width img * height img * 3)
   }"

text \<open>
  Single precision. \<open>binary_round p x\<close> is the binary floating-point number with \<open>p\<close>
  fraction bits that is nearest to \<open>x\<close>, ties going to the even significand (the limits
  of the exponent, overflow and subnormal numbers, are not modelled). \<^verbatim>\<open>float\<close> is
  \<open>binary32\<close>, \<^verbatim>\<open>double\<close> is \<open>binary64\<close>, and \<^verbatim>\<open>sqrtf\<close> returns the \<^verbatim>\<open>float\<close> nearest to
  the square root.
\<close>

definition round_even :: "real \<Rightarrow> int" where
  "round_even x =
     (let f = \<lfloor>x\<rfloor>; r = x - of_int f
      in if r < 1 / 2 then f else if 1 / 2 < r then f + 1 else if even f then f else f + 1)"

definition binary_round :: "nat \<Rightarrow> real \<Rightarrow> real" where
  "binary_round p x =
     (if x = 0 then 0
      else let e = \<lfloor>log 2 \<bar>x\<bar>\<rfloor>; ulp = 2 powr (of_int e - real p)
           in of_int (round_even (x / ulp)) * ulp)"

definition binary32 :: "real \<Rightarrow> real" where
  "binary32 = binary_round 23"

definition binary64 :: "real \<Rightarrow> real" where
  "binary64 = binary_round 52"

definition sqrtf :: "real \<Rightarrow> real" where
  "sqrtf x = binary32 (sqrt x)"

text \<open>
  \<^verbatim>\<open>const float maxC = 1.732050808\<close>: the literal is a \<^verbatim>\<open>double\<close>, converted to \<^verbatim>\<open>float\<close> by
  the initialisation.
\<close>

definition maxC :: real where
  "maxC = binary32 (binary64 1.732050808)"

definition calc_g ::
    "Image \<Rightarrow> real list \<Rightarrow> int \<Rightarrow> int \<Rightarrow> real option list \<Rightarrow> real option list option" where
  "calc_g img image_array x y g_array =
     (let pixel_index = x + y * int (width img);
          pixel_offset = pixel_index * 3
      in for_each [0..<8]
        (\<lambda>i g_array.
           if x + nx8 ! i < 0 \<or> x + nx8 ! i \<ge> int (width img) \<or>
              y + ny8 ! i < 0 \<or> y + ny8 ! i \<ge> int (height img)
           then Some g_array
           else do {
             let neighbor_offset = (x + nx8 ! i + (y + ny8 ! i) * int (width img)) * 3;
             p0 \<leftarrow> rd image_array pixel_offset;
             n0 \<leftarrow> rd image_array neighbor_offset;
             p1 \<leftarrow> rd image_array (pixel_offset + 1);
             n1 \<leftarrow> rd image_array (neighbor_offset + 1);
             p2 \<leftarrow> rd image_array (pixel_offset + 2);
             n2 \<leftarrow> rd image_array (neighbor_offset + 2);
             let C = sqrtf ((p0 - n0) * (p0 - n0) + (p1 - n1) * (p1 - n1) + (p2 - n2) * (p2 - n2));
             wr g_array (pixel_index * 8 + int i) (Some (1 - C / maxC))
           })
        g_array)"

subsection \<open>The whole run\<close>

text \<open>The body of the loops that initialise \<^verbatim>\<open>image_array\<close> and \<^verbatim>\<open>overlay_array_a\<close>.\<close>

definition init_pixel ::
    "Image \<Rightarrow> Image \<Rightarrow> int \<Rightarrow> int \<Rightarrow> real list \<times> real list \<Rightarrow> (real list \<times> real list) option" where
  "init_pixel img overlay y x st =
     (case st of (image_array, overlay_array_a) \<Rightarrow> do {
        image_pixel \<leftarrow> get_pixel img x y;
        overlay_pixel \<leftarrow> get_pixel overlay x y;
        c0 \<leftarrow> rd image_pixel 0;
        image_array \<leftarrow> wr image_array ((x + y * int (width img)) * 3)
          (real_of_int (uint c0) / 255);
        c1 \<leftarrow> rd image_pixel 1;
        image_array \<leftarrow> wr image_array ((x + y * int (width img)) * 3 + 1)
          (real_of_int (uint c1) / 255);
        c2 \<leftarrow> rd image_pixel 2;
        image_array \<leftarrow> wr image_array ((x + y * int (width img)) * 3 + 2)
          (real_of_int (uint c2) / 255);
        o3 \<leftarrow> rd overlay_pixel 3;
        if uint o3 > 0x80 then do {
          o0 \<leftarrow> rd overlay_pixel 0;
          o1 \<leftarrow> rd overlay_pixel 1;
          if uint o0 > uint o1 + 128 then do {
            overlay_array_a \<leftarrow> wr overlay_array_a (x + y * int (width img)) (- 1);
            Some (image_array, overlay_array_a)
          } else do {
            overlay_array_a \<leftarrow> wr overlay_array_a (x + y * int (width img)) 1;
            Some (image_array, overlay_array_a)
          }
        } else Some (image_array, overlay_array_a)
      })"

definition init_arrays :: "Image \<Rightarrow> Image \<Rightarrow> real list \<times> real list \<Rightarrow> (real list \<times> real list) option" where
  "init_arrays img overlay st =
     for_each [0..int (height img) - 1]
       (\<lambda>y. for_each [0..int (width img) - 1] (init_pixel img overlay y)) st"

text \<open>The loops of \<^verbatim>\<open>process_file\<close> that call \<^verbatim>\<open>calc_g\<close> for every pixel.\<close>

definition calc_g_all :: "Image \<Rightarrow> real list \<Rightarrow> real option list \<Rightarrow> real option list option" where
  "calc_g_all img image_array g_array =
     for_each [0..int (height img) - 1]
       (\<lambda>y. for_each [0..int (width img) - 1] (\<lambda>x. calc_g img image_array x y)) g_array"

definition max_iter :: nat where
  "max_iter = 2000"

text \<open>
  The \<^verbatim>\<open>while\<close> loop of \<^verbatim>\<open>process_file\<close>, from the current buffers and \<^verbatim>\<open>iter\<close>: a step
  from \<^verbatim>\<open>overlay_array_a\<close> into \<^verbatim>\<open>overlay_array_b\<close>, and the two are swapped when the step
  has not converged and \<^verbatim>\<open>++iter < max_iter\<close>. The result is \<^verbatim>\<open>overlay_array_b\<close> when the
  loop is left.
\<close>

function process_loop ::
    "Image \<Rightarrow> real list \<Rightarrow> real list \<Rightarrow> real list \<Rightarrow> real option list \<Rightarrow> nat \<Rightarrow>
     real list option" where
  "process_loop img image_array overlay_array_a overlay_array_b g_array iter =
     (case process_iteration N_THREADS img image_array overlay_array_a overlay_array_b g_array of
        None \<Rightarrow> None
      | Some (overlay_array_b', converged) \<Rightarrow>
          if \<not> converged \<and> iter + 1 < max_iter
          then process_loop img image_array overlay_array_b' overlay_array_a g_array (iter + 1)
          else Some overlay_array_b')"
  by pat_completeness auto
termination
  by (relation "measure (\<lambda>(img, image_array, overlay_array_a, overlay_array_b, g_array, iter).
        max_iter - iter)") auto

declare process_loop.simps [simp del]

text \<open>The body of the loops that write the alpha channel.\<close>

definition mask_pixel :: "real list \<Rightarrow> int \<Rightarrow> int \<Rightarrow> Image \<Rightarrow> Image option" where
  "mask_pixel overlay_array_b y x img = do {
     image_pixel \<leftarrow> get_pixel img x y;
     v \<leftarrow> rd overlay_array_b (x + y * int (width img));
     image_pixel \<leftarrow> wr image_pixel 3 (if v > 0 then 0xff else 0x00);
     set_pixel img x y image_pixel
   }"

definition write_alpha :: "real list \<Rightarrow> Image \<Rightarrow> Image option" where
  "write_alpha overlay_array_b img =
     for_each [0..int (height img) - 1]
       (\<lambda>y. for_each [0..int (width img) - 1] (mask_pixel overlay_array_b y)) img"

text \<open>
  The sizes of the fields are computed in \<^verbatim>\<open>int\<close>, as the source writes them
  (\<^verbatim>\<open>image->width * image->height * 3\<close>, from left to right): a product outside the range
  of \<^verbatim>\<open>int\<close> is undefined behaviour, \<open>None\<close>. The product is then converted to \<^verbatim>\<open>size_t\<close>
  and multiplied by \<^verbatim>\<open>sizeof (float)\<close> in unsigned 64-bit arithmetic.
\<close>

definition INT_MAX :: int where
  "INT_MAX = 2147483647"

definition int_mul :: "int \<Rightarrow> int \<Rightarrow> int option" where
  "int_mul a b = (if - INT_MAX - 1 \<le> a * b \<and> a * b \<le> INT_MAX then Some (a * b) else None)"

definition sizeof_float :: nat where
  "sizeof_float = 4"

definition size_mul :: "int \<Rightarrow> nat \<Rightarrow> nat" where
  "size_mul n k = (nat (n mod 2 ^ 64) * k) mod 2 ^ 64"

text \<open>
  The heap is the number of bytes that \<^verbatim>\<open>malloc\<close> can still hand out, and \<open>malloc heap n\<close>
  is what is left after a request for \<open>n\<close> bytes. A request for more than there is returns
  the null pointer; the source never tests the result of \<^verbatim>\<open>malloc\<close> and goes on to hand it
  to \<^verbatim>\<open>memset\<close> or to write through it, so that case is \<open>None\<close>.
\<close>

definition malloc :: "nat \<Rightarrow> nat \<Rightarrow> nat option" where
  "malloc heap n = (if n \<le> heap then Some (heap - n) else None)"

text \<open>
  \<^verbatim>\<open>process_file\<close>, on a heap of \<open>heap\<close> free bytes. \<^verbatim>\<open>malloc\<close> followed by \<^verbatim>\<open>memset\<close> is
  \<open>replicate n 0\<close>; \<^verbatim>\<open>g_array\<close> starts with no cell written. The \<^verbatim>\<open>malloc\<close> of \<^verbatim>\<open>temp_array\<close>
  in \<^verbatim>\<open>blur_image_array\<close>, a block of the size of \<^verbatim>\<open>image_array\<close> that is freed before the
  function returns, is accounted for here, before the call.
\<close>

definition process_file :: "nat \<Rightarrow> Image \<Rightarrow> Image \<Rightarrow> Image option" where
  "process_file heap img overlay = do {
     n \<leftarrow> int_mul (int (width img)) (int (height img));
     n3 \<leftarrow> int_mul n 3;
     heap \<leftarrow> malloc heap (size_mul n3 sizeof_float);
     heap \<leftarrow> malloc heap (size_mul n sizeof_float);
     heap \<leftarrow> malloc heap (size_mul n sizeof_float);
     n8 \<leftarrow> int_mul n 8;
     heap \<leftarrow> malloc heap (size_mul n8 sizeof_float);
     let image_array = replicate (nat n3) (0 :: real);
     let overlay_array_a = replicate (nat n) (0 :: real);
     let overlay_array_b = replicate (nat n) (0 :: real);
     let g_array = replicate (nat n8) None;
     (image_array, overlay_array_a) \<leftarrow> init_arrays img overlay (image_array, overlay_array_a);
     _ \<leftarrow> malloc heap (size_mul n3 sizeof_float);
     image_array \<leftarrow> blur_image_array img image_array;
     g_array \<leftarrow> calc_g_all img image_array g_array;
     overlay_array_b \<leftarrow>
       process_loop img image_array overlay_array_a overlay_array_b g_array 0;
     write_alpha overlay_array_b img
   }"

subsection \<open>The update rule, as the specification words it\<close>

text \<open>
  \<open>in_bounds w h x y d\<close>: the neighbour of \<open>(x, y)\<close> in direction \<open>d\<close> lies in the grid;
  \<open>neighbor w p d\<close> is its index.
  \<open>conquer\<close> is one comparison of the rule: the candidate \<open>g * in[neighbour]\<close> replaces
  the value when its absolute value is strictly larger. \<open>rule_cell\<close> starts from the
  cell's own value and lets the in-bounds directions attack in the order \<open>0, \<dots>, 7\<close>.
\<close>

definition in_bounds :: "nat \<Rightarrow> nat \<Rightarrow> int \<Rightarrow> int \<Rightarrow> nat \<Rightarrow> bool" where
  "in_bounds w h x y d \<longleftrightarrow>
     0 \<le> x + nx8 ! d \<and> x + nx8 ! d < int w \<and> 0 \<le> y + ny8 ! d \<and> y + ny8 ! d < int h"

definition neighbor :: "nat \<Rightarrow> nat \<Rightarrow> nat \<Rightarrow> nat" where
  "neighbor w p d = nat (int p + nx8 ! d + ny8 ! d * int w)"

definition candidate :: "nat \<Rightarrow> real list \<Rightarrow> real option list \<Rightarrow> nat \<Rightarrow> nat \<Rightarrow> real" where
  "candidate w inp g p d = the (g ! (p * 8 + d)) * inp ! neighbor w p d"

definition conquer :: "nat \<Rightarrow> real list \<Rightarrow> real option list \<Rightarrow> nat \<Rightarrow> real \<Rightarrow> nat \<Rightarrow> real" where
  "conquer w inp g p v d =
     (if \<bar>candidate w inp g p d\<bar> > \<bar>v\<bar> then candidate w inp g p d else v)"

definition rule_cell :: "nat \<Rightarrow> nat \<Rightarrow> real list \<Rightarrow> real option list \<Rightarrow> nat \<Rightarrow> real" where
  "rule_cell w h inp g p =
     foldl (conquer w inp g p) (inp ! p)
       (filter (in_bounds w h (int (p mod w)) (int (p div w))) [0..<8])"

text \<open>One synchronous step of the automaton: the rule applied to every cell.\<close>

definition step_cells :: "nat \<Rightarrow> nat \<Rightarrow> real option list \<Rightarrow> real list \<Rightarrow> real list" where
  "step_cells w h g inp = map (rule_cell w h inp g) [0..<w * h]"

text \<open>
  The share of the grid that each worker of the threaded step updates, as the
  specification words it: interior thread \<open>i\<close> (for \<open>i < n\<close>) has the interior pixels of the
  rows \<open>i + 1, i + 1 + n, i + 1 + 2 n, \<dots>\<close>, and the border thread (worker \<open>n\<close>) has the pixels
  of the first and last row and column.
\<close>

definition worker_cell :: "nat \<Rightarrow> nat \<Rightarrow> nat \<Rightarrow> nat \<Rightarrow> nat \<Rightarrow> bool" where
  "worker_cell n w h i c \<longleftrightarrow>
     (let x = c mod w; y = c div w
      in if i < n then 1 \<le> x \<and> x + 1 < w \<and> y + 1 < h \<and> i + 1 \<le> y \<and> (y - (i + 1)) mod n = 0
         else x = 0 \<or> x + 1 = w \<or> y = 0 \<or> y + 1 = h)"

text \<open>
  The affinity of the specification: one minus the Euclidean distance of the two colours
  (the square root taken in single precision, as \<^verbatim>\<open>sqrtf\<close> does), divided by the normaliser
  of the source, \<open>maxC\<close>.
\<close>

definition color_distance :: "real list \<Rightarrow> nat \<Rightarrow> nat \<Rightarrow> real" where
  "color_distance image_array p q =
     sqrtf ((image_array ! (p * 3) - image_array ! (q * 3))\<^sup>2 +
           (image_array ! (p * 3 + 1) - image_array ! (q * 3 + 1))\<^sup>2 +
           (image_array ! (p * 3 + 2) - image_array ! (q * 3 + 2))\<^sup>2)"

definition affinity :: "nat \<Rightarrow> real list \<Rightarrow> nat \<Rightarrow> nat \<Rightarrow> real" where
  "affinity w image_array p d = 1 - color_distance image_array p (neighbor w p d) / maxC"

text \<open>
  The smoothing of the specification: \<open>contributors w h p\<close> are the offsets among the nine
  of \<^verbatim>\<open>nx9\<close>, \<^verbatim>\<open>ny9\<close> (offset 0 is the pixel itself) whose pixel lies in the grid, and
  \<open>blur_mean\<close> is the arithmetic mean of one channel over them, cell \<open>j\<close> being channel
  \<open>j mod 3\<close> of pixel \<open>j div 3\<close>.
\<close>

definition in_bounds9 :: "nat \<Rightarrow> nat \<Rightarrow> int \<Rightarrow> int \<Rightarrow> nat \<Rightarrow> bool" where
  "in_bounds9 w h x y i \<longleftrightarrow>
     0 \<le> x + nx9 ! i \<and> x + nx9 ! i < int w \<and> 0 \<le> y + ny9 ! i \<and> y + ny9 ! i < int h"

definition neighbor9 :: "nat \<Rightarrow> nat \<Rightarrow> nat \<Rightarrow> nat" where
  "neighbor9 w p i = nat (int p + nx9 ! i + ny9 ! i * int w)"

definition contributors :: "nat \<Rightarrow> nat \<Rightarrow> nat \<Rightarrow> nat list" where
  "contributors w h p = filter (in_bounds9 w h (int (p mod w)) (int (p div w))) [0..<9]"

definition blur_mean :: "nat \<Rightarrow> nat \<Rightarrow> real list \<Rightarrow> nat \<Rightarrow> real" where
  "blur_mean w h array j =
     (\<Sum>i\<leftarrow>contributors w h (j div 3). array ! (neighbor9 w (j div 3) i * 3 + j mod 3))
       / real (length (contributors w h (j div 3)))"

text \<open>
  The seed of the specification for the overlay pixel \<open>(x, y)\<close>: unlabelled below or at
  the opacity threshold, background when red exceeds green by more than the margin,
  foreground otherwise.
\<close>

definition seed_of :: "Image \<Rightarrow> nat \<Rightarrow> nat \<Rightarrow> real" where
  "seed_of overlay x y =
     (let pixel = rows overlay ! y in
      if 128 < uint (pixel ! (4 * x + 3))
      then if uint (pixel ! (4 * x + 1)) + 128 < uint (pixel ! (4 * x)) then - 1 else 1
      else 0)"

subsection \<open>The run, as the specification words it\<close>








subsection \<open>Notions used in the proofs\<close>

text \<open>
  \<open>g_defined\<close>: \<^verbatim>\<open>g_array\<close> has its size and every cell of an in-bounds direction has
  been written. \<open>stepped S s s'\<close>: from state \<open>s\<close> to \<open>s'\<close> exactly the cells in \<open>S\<close>
  received the rule's value, and the flag was cleared iff one of them changed.
  \<open>attack\<close> is \<open>conquer\<close> together with the flag. \<open>border_cells\<close> and \<open>thread_cells\<close>
  are the cells visited by the border loops and by the thread that starts in row \<open>r\<close>.
\<close>

definition g_defined :: "nat \<Rightarrow> nat \<Rightarrow> real option list \<Rightarrow> bool" where
  "g_defined w h g \<longleftrightarrow>
     length g = w * h * 8 \<and>
     (\<forall>p<w * h. \<forall>d<8. in_bounds w h (int (p mod w)) (int (p div w)) d \<longrightarrow> g ! (p * 8 + d) \<noteq> None)"

definition stepped ::
    "nat \<Rightarrow> nat \<Rightarrow> real list \<Rightarrow> real option list \<Rightarrow> nat set \<Rightarrow> step_state \<Rightarrow> step_state \<Rightarrow> bool" where
  "stepped w h inp g S s s' \<longleftrightarrow>
     length (fst s') = length (fst s) \<and>
     (\<forall>j<length (fst s). fst s' ! j = (if j \<in> S then rule_cell w h inp g j else fst s ! j)) \<and>
     (snd s' \<longleftrightarrow> snd s \<and> (\<forall>j\<in>S. rule_cell w h inp g j = inp ! j))"

definition attack :: "nat \<Rightarrow> real list \<Rightarrow> real option list \<Rightarrow> nat \<Rightarrow> real \<times> bool \<Rightarrow> nat \<Rightarrow> real \<times> bool" where
  "attack w inp g p vc d =
     (if \<bar>candidate w inp g p d\<bar> > \<bar>fst vc\<bar> then (candidate w inp g p d, False) else vc)"

definition border_cells :: "nat \<Rightarrow> nat \<Rightarrow> nat set" where
  "border_cells w h =
     (\<lambda>x. 0 * w + nat x) ` {0..int w - 1} \<union> (\<lambda>x. nat (int h - 1) * w + nat x) ` {0..int w - 1} \<union>
     (\<lambda>y. nat y * w + 0) ` {1..int h - 2} \<union> (\<lambda>y. nat y * w + nat (int w - 1)) ` {1..int h - 2}"

definition thread_cells :: "nat \<Rightarrow> nat \<Rightarrow> nat \<Rightarrow> nat \<Rightarrow> nat set" where
  "thread_cells n w h r =
     {(r + k * n) * w + x | x k. 1 \<le> x \<and> x + 1 < w \<and> r + k * n + 1 < h}"

text \<open>
  \<open>written G S xs xs'\<close>: from \<open>xs\<close> to \<open>xs'\<close> exactly the cells in \<open>S\<close> changed, cell \<open>j\<close>
  from \<open>v\<close> to \<open>G v j\<close>. \<open>grid w h\<close> lists the pixels \<open>(y, x)\<close> in the order of the nested
  loops, \<open>pixel_of\<close> is the index of a pixel, \<open>g_cells\<close> the cells of \<^verbatim>\<open>g_array\<close> that
  \<^verbatim>\<open>calc_g\<close> writes for it. \<open>g_unit\<close> and \<open>unit_field\<close>: all written affinities, and all
  strengths, have magnitude at most 1.
\<close>

definition written :: "('a \<Rightarrow> nat \<Rightarrow> 'a) \<Rightarrow> nat set \<Rightarrow> 'a list \<Rightarrow> 'a list \<Rightarrow> bool" where
  "written G S xs xs' \<longleftrightarrow>
     length xs' = length xs \<and> (\<forall>j<length xs. xs' ! j = (if j \<in> S then G (xs ! j) j else xs ! j))"

definition pixel_of :: "nat \<Rightarrow> int \<times> int \<Rightarrow> nat" where
  "pixel_of w yx = nat (fst yx) * w + nat (snd yx)"

definition grid :: "nat \<Rightarrow> nat \<Rightarrow> (int \<times> int) list" where
  "grid w h = List.product [0..int h - 1] [0..int w - 1]"

definition g_cells :: "nat \<Rightarrow> nat \<Rightarrow> nat \<Rightarrow> nat set" where
  "g_cells w h p = {p * 8 + d | d. d < 8 \<and> in_bounds w h (int (p mod w)) (int (p div w)) d}"

definition g_unit :: "nat \<Rightarrow> nat \<Rightarrow> real option list \<Rightarrow> bool" where
  "g_unit w h g \<longleftrightarrow>
     (\<forall>p<w * h. \<forall>d<8. in_bounds w h (int (p mod w)) (int (p div w)) d \<longrightarrow>
        (\<exists>c. g ! (p * 8 + d) = Some c \<and> \<bar>c\<bar> \<le> 1))"

definition unit_field :: "real list \<Rightarrow> bool" where
  "unit_field xs \<longleftrightarrow> (\<forall>j<length xs. \<bar>xs ! j\<bar> \<le> 1)"

text \<open>
  \<open>channel_sum\<close> is the sum that the loop over the offsets accumulates, \<open>blur_cells\<close> the
  three cells of a pixel. \<open>image_ok\<close>: an image as \<^verbatim>\<open>read_png_file\<close> builds it, with
  \<open>height\<close> rows of at least \<open>4 * width\<close> bytes.
\<close>

definition channel_sum :: "nat \<Rightarrow> real list \<Rightarrow> nat \<Rightarrow> nat list \<Rightarrow> nat \<Rightarrow> real" where
  "channel_sum w array p ds k = (\<Sum>i\<leftarrow>ds. array ! (neighbor9 w p i * 3 + k))"

definition blur_cells :: "nat \<Rightarrow> nat set" where
  "blur_cells p = {p * 3, p * 3 + 1, p * 3 + 2}"

definition image_ok :: "Image \<Rightarrow> bool" where
  "image_ok img \<longleftrightarrow>
     length (rows img) = height img \<and> (\<forall>row\<in>set (rows img). 4 * width img \<le> length row)"


section \<open>Properties\<close>

subsection \<open>One pixel\<close>

lemma rd_Some: "0 \<le> i \<Longrightarrow> i < int (length xs) \<Longrightarrow> rd xs i = Some (xs ! nat i)"
  by (simp add: rd_def)

lemma rd_nat: "n < length xs \<Longrightarrow> rd xs (int n) = Some (xs ! n)"
  by (simp add: rd_def)

lemma wr_nat: "n < length xs \<Longrightarrow> wr xs (int n) v = Some (xs[n := v])"
  by (simp add: wr_def)

lemma rdg_nat: "n < length g \<Longrightarrow> g ! n = Some c \<Longrightarrow> rdg g (int n) = Some c"
  by (simp add: rdg_def rd_def)

lemma cell_index_less:
  fixes x y :: nat
  assumes "x < w" "y < h"
  shows "y * w + x < w * h"
proof -
  have "y * w + x < y * w + w" using assms by simp
  also have "\<dots> = (Suc y) * w" by simp
  also have "\<dots> \<le> h * w" using assms by (intro mult_le_mono1) simp
  finally show ?thesis by (simp add: mult.commute)
qed

lemma nx8_ny8_length: "length nx8 = 8" "length ny8 = 8"
  by (simp_all add: nx8_def ny8_def)

lemma neighbor_offsets_nth:
  "d < 8 \<Longrightarrow> neighbor_offsets img ! d = nx8 ! d + ny8 ! d * int (width img)"
  unfolding neighbor_offsets_def by (simp del: upt_Suc)

lemma length_neighbor_offsets: "length (neighbor_offsets img) = 8"
  by (simp add: neighbor_offsets_def)

text \<open>the neighbour cell of an in-bounds direction\<close>

lemma neighbor_index_ok:
  assumes "x < w" "y < h" "in_bounds w h (int x) (int y) d"
  shows "0 \<le> int (y * w + x) + nx8 ! d + ny8 ! d * int w"
    and "int (y * w + x) + nx8 ! d + ny8 ! d * int w < int (w * h)"
proof -
  obtain x' y' :: nat where x': "int x' = int x + nx8 ! d" "x' < w"
    and y': "int y' = int y + ny8 ! d" "y' < h"
    using assms(3) unfolding in_bounds_def
    by (metis nat_int zless_nat_eq_int_zless int_nat_eq)
  have eq: "int (y * w + x) + nx8 ! d + ny8 ! d * int w = int (y' * w + x')"
    using x'(1) y'(1) by (simp add: algebra_simps)
  show "0 \<le> int (y * w + x) + nx8 ! d + ny8 ! d * int w" unfolding eq by simp
  show "int (y * w + x) + nx8 ! d + ny8 ! d * int w < int (w * h)"
    unfolding eq using cell_index_less [OF x'(2) y'(2)] by linarith
qed

lemma neighbor_step:
  assumes wf: "x < w" "y < h" "width img = w" "length inp = w * h" "g_defined w h g"
    and d: "d < 8" "in_bounds w h (int x) (int y) d"
    and out: "length out = w * h"
    and p: "p = y * w + x"
  shows "process_pixel_neighbor_border img (int p) inp g (neighbor_offsets img) d (out, c)
         = Some (out[p := fst (attack w inp g p (out ! p, c) d)],
                 snd (attack w inp g p (out ! p, c) d))"
proof -
  have pl: "p < w * h" unfolding p by (rule cell_index_less [OF wf(1,2)])
  have pm: "p mod w = x" "p div w = y" using wf(1) by (simp_all add: p)
  have gl: "p * 8 + d < length g" using pl d(1) wf(5) by (simp add: g_defined_def)
  obtain gv where gv: "g ! (p * 8 + d) = Some gv"
    using wf(5) pl d pm unfolding g_defined_def by auto
  have n0: "0 \<le> int p + nx8 ! d + ny8 ! d * int w"
    and n1: "int p + nx8 ! d + ny8 ! d * int w < int (length inp)"
    using neighbor_index_ok [OF wf(1,2) d(2)] by (simp_all add: p wf(4))
  have r1: "rd (neighbor_offsets img) (int d) = Some (nx8 ! d + ny8 ! d * int w)"
    using d(1) by (simp add: rd_nat length_neighbor_offsets neighbor_offsets_nth wf(3))
  have r2: "rdg g (int p * 8 + int d) = Some gv"
    using rdg_nat [OF gl gv] by simp
  have r3: "rd inp (int p + (nx8 ! d + ny8 ! d * int w))
            = Some (inp ! nat (int p + nx8 ! d + ny8 ! d * int w))"
    using rd_Some [OF n0 n1] by (simp add: add.assoc)
  have r4: "rd out (int p) = Some (out ! p)" using pl out by (simp add: rd_nat)
  have cand: "candidate w inp g p d = gv * inp ! nat (int p + nx8 ! d + ny8 ! d * int w)"
    by (simp add: candidate_def neighbor_def gv)
  show ?thesis
    unfolding process_pixel_neighbor_border_def
    using pl out by (simp add: r1 r2 r3 r4 cand attack_def wr_nat)
qed

lemma neighbor_internal_eq:
  "process_pixel_neighbor_internal index inp g ofs d st
   = process_pixel_neighbor_border img index inp g ofs d st"
  by (simp add: process_pixel_neighbor_internal_def process_pixel_neighbor_border_def)

lemma out_of_bounds_iff:
  "(x + nx8 ! d < 0 \<or> int w \<le> x + nx8 ! d \<or> y + ny8 ! d < 0 \<or> int h \<le> y + ny8 ! d)
   \<longleftrightarrow> \<not> in_bounds w h x y d"
  by (auto simp: in_bounds_def)

lemma border_directions:
  assumes wf: "x < w" "y < h" "width img = w" "height img = h" "length inp = w * h"
      "g_defined w h g"
    and p: "p = y * w + x"
  shows "set ds \<subseteq> {..<8} \<Longrightarrow> length out = w * h \<Longrightarrow>
    for_each ds
      (\<lambda>i st'.
         if int x + nx8 ! i < 0 \<or> int x + nx8 ! i \<ge> int (width img) \<or>
            int y + ny8 ! i < 0 \<or> int y + ny8 ! i \<ge> int (height img)
         then Some st'
         else process_pixel_neighbor_border img (int p) inp g (neighbor_offsets img) i st')
      (out, c)
    = Some (out[p := fst (foldl (attack w inp g p) (out ! p, c)
                            (filter (in_bounds w h (int x) (int y)) ds))],
            snd (foldl (attack w inp g p) (out ! p, c)
                            (filter (in_bounds w h (int x) (int y)) ds)))"
proof (induction ds arbitrary: out c)
  case Nil
  then show ?case by simp
next
  case (Cons d ds)
  have pl: "p < length out" unfolding p using cell_index_less [OF wf(1,2)] Cons.prems by simp
  show ?case
  proof (cases "in_bounds w h (int x) (int y) d")
    case False
    then show ?thesis
      using Cons.IH [of out c] Cons.prems
      by (simp add: out_of_bounds_iff wf(3,4))
  next
    case True
    have d: "d < 8" using Cons.prems by simp
    let ?A = "attack w inp g p (out ! p, c) d"
    have st: "process_pixel_neighbor_border img (int p) inp g (neighbor_offsets img) d (out, c)
         = Some (out[p := fst ?A], snd ?A)"
      by (rule neighbor_step [OF wf(1,2,3,5,6) d True _ p]) (use Cons.prems in simp)
    have "for_each ds
      (\<lambda>i st'.
         if int x + nx8 ! i < 0 \<or> int x + nx8 ! i \<ge> int (width img) \<or>
            int y + ny8 ! i < 0 \<or> int y + ny8 ! i \<ge> int (height img)
         then Some st'
         else process_pixel_neighbor_border img (int p) inp g (neighbor_offsets img) i st')
      (out[p := fst ?A], snd ?A)
    = Some ((out[p := fst ?A])[p := fst (foldl (attack w inp g p) ((out[p := fst ?A]) ! p, snd ?A)
                            (filter (in_bounds w h (int x) (int y)) ds))],
            snd (foldl (attack w inp g p) ((out[p := fst ?A]) ! p, snd ?A)
                            (filter (in_bounds w h (int x) (int y)) ds)))"
      using Cons.prems by (intro Cons.IH) simp_all
    then show ?thesis
      using True st pl by (simp add: out_of_bounds_iff wf(3,4))
  qed
qed

lemma abs_foldl_conquer: "\<bar>v\<bar> \<le> \<bar>foldl (conquer w inp g p) v ds\<bar>"
proof (induction ds arbitrary: v)
  case Nil
  show ?case by simp
next
  case (Cons d ds)
  have "\<bar>v\<bar> \<le> \<bar>conquer w inp g p v d\<bar>" by (simp add: conquer_def)
  also have "\<dots> \<le> \<bar>foldl (conquer w inp g p) (conquer w inp g p v d) ds\<bar>"
    by (rule Cons.IH)
  finally show ?case by simp
qed

lemma attack_conquer:
  "attack w inp g p (v, c) d
   = (conquer w inp g p v d, c \<and> \<not> \<bar>candidate w inp g p d\<bar> > \<bar>v\<bar>)"
  by (simp add: attack_def conquer_def)

lemma fst_foldl_attack:
  "fst (foldl (attack w inp g p) (v, c) ds) = foldl (conquer w inp g p) v ds"
  by (induction ds arbitrary: v c) (simp_all add: attack_conquer)

lemma snd_foldl_attack:
  "snd (foldl (attack w inp g p) (v, c) ds) \<longleftrightarrow> c \<and> foldl (conquer w inp g p) v ds = v"
proof (induction ds arbitrary: v c)
  case Nil
  show ?case by simp
next
  case (Cons d ds)
  show ?case
  proof (cases "\<bar>candidate w inp g p d\<bar> > \<bar>v\<bar>")
    case True
    have "\<bar>candidate w inp g p d\<bar> \<le> \<bar>foldl (conquer w inp g p) (candidate w inp g p d) ds\<bar>"
      by (rule abs_foldl_conquer)
    with True have "foldl (conquer w inp g p) (candidate w inp g p d) ds \<noteq> v" by auto
    moreover have "conquer w inp g p v d = candidate w inp g p d"
      using True by (simp add: conquer_def)
    ultimately show ?thesis using True by (simp add: attack_conquer Cons.IH)
  next
    case False
    then have "conquer w inp g p v d = v" by (simp add: conquer_def)
    with False show ?thesis by (simp add: attack_conquer Cons.IH)
  qed
qed

lemma pixel_border:
  assumes wf: "x < w" "y < h" "width img = w" "height img = h" "length inp = w * h"
      "g_defined w h g"
    and p: "p = y * w + x" and out: "length out = w * h"
  shows "process_pixel_border img (int x) (int y) inp g (neighbor_offsets img) (out, c)
         = Some (out[p := rule_cell w h inp g p], c \<and> rule_cell w h inp g p = inp ! p)"
proof -
  have pl: "p < w * h" unfolding p by (rule cell_index_less [OF wf(1,2)])
  have pm: "p mod w = x" "p div w = y" using wf(1) by (simp_all add: p)
  have idx: "int (width img) * int y + int x = int p" by (simp add: p wf(3) mult.commute)
  let ?F = "foldl (attack w inp g p) (inp ! p, c) (filter (in_bounds w h (int x) (int y)) [0..<8])"
  have loop: "for_each [0..<8]
      (\<lambda>i st'.
         if int x + nx8 ! i < 0 \<or> int x + nx8 ! i \<ge> int (width img) \<or>
            int y + ny8 ! i < 0 \<or> int y + ny8 ! i \<ge> int (height img)
         then Some st'
         else process_pixel_neighbor_border img (int p) inp g (neighbor_offsets img) i st')
      (out[p := inp ! p], c)
    = Some ((out[p := inp ! p])[p := fst ?F], snd ?F)"
  proof -
    have sub: "set [0..<8] \<subseteq> {..<8}" by auto
    show ?thesis
      using border_directions [OF wf p sub, of "out[p := inp ! p]" c] pl out
      by (simp del: upt_Suc)
  qed
  have F1: "fst ?F = rule_cell w h inp g p"
    by (simp add: fst_foldl_attack rule_cell_def pm del: upt_Suc)
  have F2: "snd ?F \<longleftrightarrow> c \<and> rule_cell w h inp g p = inp ! p"
    by (simp add: snd_foldl_attack rule_cell_def pm del: upt_Suc)
  show ?thesis
    unfolding process_pixel_border_def
    using pl out wf(5) loop
    by (simp add: idx rd_nat wr_nat F1 F2 del: upt_Suc)
qed

lemma for_each_cong:
  "(\<And>i s. i \<in> set xs \<Longrightarrow> f i s = f' i s) \<Longrightarrow> for_each xs f s = for_each xs f' s"
  by (induction xs arbitrary: s) (auto split: option.splits)

lemma nx8_ny8_range:
  assumes "d < 8"
  shows "- 1 \<le> nx8 ! d \<and> nx8 ! d \<le> 1 \<and> - 1 \<le> ny8 ! d \<and> ny8 ! d \<le> 1"
proof -
  from assms have "d = 0 \<or> d = 1 \<or> d = 2 \<or> d = 3 \<or> d = 4 \<or> d = 5 \<or> d = 6 \<or> d = 7"
    by arith
  then show ?thesis by (auto simp: nx8_def ny8_def)
qed

lemma interior_in_bounds:
  assumes "1 \<le> x" "x + 1 < w" "1 \<le> y" "y + 1 < h" "d < 8"
  shows "in_bounds w h (int x) (int y) d"
  using nx8_ny8_range [OF assms(5)] assms(1-4) unfolding in_bounds_def by linarith

lemma pixel_internal:
  assumes wf: "x < w" "y < h" "width img = w" "height img = h" "length inp = w * h"
      "g_defined w h g"
    and p: "p = y * w + x" and out: "length out = w * h"
    and inner: "1 \<le> x" "x + 1 < w" "1 \<le> y" "y + 1 < h"
  shows "process_pixel_internal (int p) inp g (neighbor_offsets img) (out, c)
         = Some (out[p := rule_cell w h inp g p], c \<and> rule_cell w h inp g p = inp ! p)"
proof -
  have idx: "int (width img) * int y + int x = int p" by (simp add: p wf(3) mult.commute)
  have eq: "for_each [0..<8]
          (process_pixel_neighbor_internal (int p) inp g (neighbor_offsets img)) st
        = for_each [0..<8]
          (\<lambda>i st'.
             if int x + nx8 ! i < 0 \<or> int x + nx8 ! i \<ge> int (width img) \<or>
                int y + ny8 ! i < 0 \<or> int y + ny8 ! i \<ge> int (height img)
             then Some st'
             else process_pixel_neighbor_border img (int p) inp g (neighbor_offsets img) i st')
          st" for st
  proof (rule for_each_cong)
    fix i s assume "i \<in> set [0..<8]"
    then have "in_bounds w h (int x) (int y) i"
      by (intro interior_in_bounds [OF inner]) simp
    then show "process_pixel_neighbor_internal (int p) inp g (neighbor_offsets img) i s
        = (if int x + nx8 ! i < 0 \<or> int x + nx8 ! i \<ge> int (width img) \<or>
                int y + ny8 ! i < 0 \<or> int y + ny8 ! i \<ge> int (height img)
             then Some s
             else process_pixel_neighbor_border img (int p) inp g (neighbor_offsets img) i s)"
      by (simp add: out_of_bounds_iff wf(3,4) neighbor_internal_eq [of _ _ _ _ _ _ img])
  qed
  have "process_pixel_internal (int p) inp g (neighbor_offsets img) (out, c)
        = process_pixel_border img (int x) (int y) inp g (neighbor_offsets img) (out, c)"
    unfolding process_pixel_internal_def process_pixel_border_def
    by (simp add: idx eq Let_def del: upt_Suc)
  then show ?thesis using pixel_border [OF wf p out] by simp
qed

lemma stepped_empty: "stepped w h inp g {} s s"
  by (simp add: stepped_def)

lemma stepped_trans:
  "stepped w h inp g S s s' \<Longrightarrow> stepped w h inp g T s' s'' \<Longrightarrow> stepped w h inp g (S \<union> T) s s''"
  unfolding stepped_def by auto

lemma stepped_pixel:
  "p < length out \<Longrightarrow>
   stepped w h inp g {p} (out, c) (out[p := rule_cell w h inp g p], c \<and> rule_cell w h inp g p = inp ! p)"
  by (simp add: stepped_def nth_list_update)

lemma stepped_length: "stepped w h inp g S s s' \<Longrightarrow> length (fst s') = length (fst s)"
  by (simp add: stepped_def)

lemma for_each_stepped:
  assumes body: "\<And>i s. i \<in> set xs \<Longrightarrow> length (fst s) = n \<Longrightarrow>
                   \<exists>s'. body i s = Some s' \<and> stepped w h inp g (S i) s s'"
    and len: "length (fst s) = n"
  shows "\<exists>s'. for_each xs body s = Some s' \<and> stepped w h inp g (\<Union>i\<in>set xs. S i) s s'"
  using body len
proof (induction xs arbitrary: s)
  case Nil
  then show ?case by (simp add: stepped_empty)
next
  case (Cons i xs)
  obtain s1 where s1: "body i s = Some s1" "stepped w h inp g (S i) s s1"
    using Cons.prems(1) [of i s] Cons.prems(2) by auto
  have l1: "length (fst s1) = n" using stepped_length [OF s1(2)] Cons.prems(2) by simp
  obtain s2 where s2: "for_each xs body s1 = Some s2"
      "stepped w h inp g (\<Union>i\<in>set xs. S i) s1 s2"
    using Cons.IH [OF _ l1] Cons.prems(1) by auto
  have "stepped w h inp g (S i \<union> (\<Union>i\<in>set xs. S i)) s s2"
    by (rule stepped_trans [OF s1(2) s2(2)])
  then show ?case using s1(1) s2(1) by simp
qed

lemma border_pixel_stepped:
  assumes wf: "width img = w" "height img = h" "length inp = w * h" "g_defined w h g"
    and xy: "0 \<le> x" "x < int w" "0 \<le> y" "y < int h"
    and len: "length (fst s) = w * h"
  shows "\<exists>s'. process_pixel_border img x y inp g (neighbor_offsets img) s = Some s' \<and>
              stepped w h inp g {nat y * w + nat x} s s'"
proof -
  obtain out c where s: "s = (out, c)" by (cases s)
  have x: "nat x < w" "int (nat x) = x" and y: "nat y < h" "int (nat y) = y"
    using xy by simp_all
  have pl: "nat y * w + nat x < length out"
    using cell_index_less [OF x(1) y(1)] len s by simp
  have "process_pixel_border img (int (nat x)) (int (nat y)) inp g (neighbor_offsets img) (out, c)
        = Some (out[nat y * w + nat x := rule_cell w h inp g (nat y * w + nat x)],
                c \<and> rule_cell w h inp g (nat y * w + nat x) = inp ! (nat y * w + nat x))"
    by (rule pixel_border [OF x(1) y(1) wf refl]) (use len s in simp)
  then show ?thesis
    unfolding x(2) y(2) s using stepped_pixel [OF pl, where c = c] by blast
qed

lemma interior_pixel_stepped:
  assumes wf: "width img = w" "height img = h" "length inp = w * h" "g_defined w h g"
    and xy: "1 \<le> x" "x + 1 < w" "1 \<le> y" "y + 1 < h"
    and len: "length (fst s) = w * h"
  shows "\<exists>s'. process_pixel_internal (int (y * w + x)) inp g (neighbor_offsets img) s = Some s' \<and>
              stepped w h inp g {y * w + x} s s'"
proof -
  obtain out c where s: "s = (out, c)" by (cases s)
  have x: "x < w" and y: "y < h" using xy by simp_all
  have pl: "y * w + x < length out"
    using cell_index_less [OF x y] len s by simp
  have "process_pixel_internal (int (y * w + x)) inp g (neighbor_offsets img) (out, c)
        = Some (out[y * w + x := rule_cell w h inp g (y * w + x)],
                c \<and> rule_cell w h inp g (y * w + x) = inp ! (y * w + x))"
    by (rule pixel_internal [OF x y wf refl _ xy]) (use len s in simp)
  then show ?thesis
    unfolding s using stepped_pixel [OF pl, where c = c] by blast
qed

subsection \<open>The loops of an iteration step\<close>

lemma row_loop:
  assumes wf: "width img = w" "height img = h" "length inp = w * h" "g_defined w h g"
    and y: "0 \<le> y" "y < int h" and len: "length (fst s) = w * h"
  shows "\<exists>s'. for_each [0..int w - 1]
           (\<lambda>x. process_pixel_border img x y inp g (neighbor_offsets img)) s = Some s' \<and>
         stepped w h inp g ((\<lambda>x. nat y * w + nat x) ` {0..int w - 1}) s s'"
proof -
  have "\<exists>s'. for_each [0..int w - 1]
           (\<lambda>x. process_pixel_border img x y inp g (neighbor_offsets img)) s = Some s' \<and>
         stepped w h inp g (\<Union>x\<in>set [0..int w - 1]. {nat y * w + nat x}) s s'"
  proof (rule for_each_stepped [OF _ len])
    fix x and s :: step_state assume "x \<in> set [0..int w - 1]" "length (fst s) = w * h"
    then show "\<exists>s'. process_pixel_border img x y inp g (neighbor_offsets img) s = Some s' \<and>
         stepped w h inp g {nat y * w + nat x} s s'"
      by (intro border_pixel_stepped [OF wf _ _ y]) simp_all
  qed
  moreover have "(\<Union>x\<in>set [0..int w - 1]. {nat y * w + nat x})
                 = (\<lambda>x. nat y * w + nat x) ` {0..int w - 1}" by auto
  ultimately show ?thesis by simp
qed

lemma col_loop:
  assumes wf: "width img = w" "height img = h" "length inp = w * h" "g_defined w h g"
    and x: "0 \<le> x" "x < int w" and len: "length (fst s) = w * h"
  shows "\<exists>s'. for_each [1..int h - 2]
           (\<lambda>y. process_pixel_border img x y inp g (neighbor_offsets img)) s = Some s' \<and>
         stepped w h inp g ((\<lambda>y. nat y * w + nat x) ` {1..int h - 2}) s s'"
proof -
  have "\<exists>s'. for_each [1..int h - 2]
           (\<lambda>y. process_pixel_border img x y inp g (neighbor_offsets img)) s = Some s' \<and>
         stepped w h inp g (\<Union>y\<in>set [1..int h - 2]. {nat y * w + nat x}) s s'"
  proof (rule for_each_stepped [OF _ len])
    fix y and s :: step_state assume "y \<in> set [1..int h - 2]" "length (fst s) = w * h"
    then show "\<exists>s'. process_pixel_border img x y inp g (neighbor_offsets img) s = Some s' \<and>
         stepped w h inp g {nat y * w + nat x} s s'"
      by (intro border_pixel_stepped [OF wf x]) simp_all
  qed
  moreover have "(\<Union>y\<in>set [1..int h - 2]. {nat y * w + nat x})
                 = (\<lambda>y. nat y * w + nat x) ` {1..int h - 2}" by auto
  ultimately show ?thesis by simp
qed

text \<open>the four border loops, from any state\<close>

lemma border_loops:
  assumes wf: "width img = w" "height img = h" "length inp = w * h" "g_defined w h g"
    and pos: "0 < w" "0 < h" and len: "length (fst s) = w * h"
  shows "\<exists>s1 s2 s3 s4.
      for_each [0..int w - 1]
        (\<lambda>x. process_pixel_border img x 0 inp g (neighbor_offsets img)) s = Some s1 \<and>
      for_each [0..int w - 1]
        (\<lambda>x. process_pixel_border img x (int h - 1) inp g (neighbor_offsets img)) s1 = Some s2 \<and>
      for_each [1..int h - 2]
        (\<lambda>y. process_pixel_border img 0 y inp g (neighbor_offsets img)) s2 = Some s3 \<and>
      for_each [1..int h - 2]
        (\<lambda>y. process_pixel_border img (int w - 1) y inp g (neighbor_offsets img)) s3 = Some s4 \<and>
      stepped w h inp g (border_cells w h) s s4"
proof -
  obtain s1 where s1: "for_each [0..int w - 1]
        (\<lambda>x. process_pixel_border img x 0 inp g (neighbor_offsets img)) s = Some s1"
      "stepped w h inp g ((\<lambda>x. nat 0 * w + nat x) ` {0..int w - 1}) s s1"
    using row_loop [OF wf _ _ len, of 0] pos by auto
  have l1: "length (fst s1) = w * h" using stepped_length [OF s1(2)] len by simp
  obtain s2 where s2: "for_each [0..int w - 1]
        (\<lambda>x. process_pixel_border img x (int h - 1) inp g (neighbor_offsets img)) s1 = Some s2"
      "stepped w h inp g ((\<lambda>x. nat (int h - 1) * w + nat x) ` {0..int w - 1}) s1 s2"
    using row_loop [OF wf _ _ l1, of "int h - 1"] pos by auto
  have l2: "length (fst s2) = w * h" using stepped_length [OF s2(2)] l1 by simp
  obtain s3 where s3: "for_each [1..int h - 2]
        (\<lambda>y. process_pixel_border img 0 y inp g (neighbor_offsets img)) s2 = Some s3"
      "stepped w h inp g ((\<lambda>y. nat y * w + nat 0) ` {1..int h - 2}) s2 s3"
    using col_loop [OF wf _ _ l2, of 0] pos by auto
  have l3: "length (fst s3) = w * h" using stepped_length [OF s3(2)] l2 by simp
  obtain s4 where s4: "for_each [1..int h - 2]
        (\<lambda>y. process_pixel_border img (int w - 1) y inp g (neighbor_offsets img)) s3 = Some s4"
      "stepped w h inp g ((\<lambda>y. nat y * w + nat (int w - 1)) ` {1..int h - 2}) s3 s4"
    using col_loop [OF wf _ _ l3, of "int w - 1"] pos by auto
  have "stepped w h inp g (border_cells w h) s s4"
    using stepped_trans [OF stepped_trans [OF stepped_trans [OF s1(2) s2(2)] s3(2)] s4(2)]
    by (simp add: border_cells_def)
  with s1(1) s2(1) s3(1) s4(1) show ?thesis by blast
qed

lemma thread_loop_narrow:
  "width img \<le> 2 \<Longrightarrow> thread_loop n img inp g ofs im idx s = Some s"
proof (induction n img inp g ofs im idx s rule: thread_loop.induct)
  case (1 n img inp g ofs im idx s)
  have e: "[idx..idx + int (width img) - 2 - 1] = []" using "1.prems" by simp
  show ?case
    by (subst thread_loop.simps) (use 1 e in \<open>simp add: Let_def\<close>)
qed

lemma thread_cells_unfold:
  assumes "1 \<le> n" "r + 1 < h"
  shows "thread_cells n w h r = {r * w + x | x. 1 \<le> x \<and> x + 1 < w} \<union> thread_cells n w h (r + n)"
proof (intro set_eqI iffI)
  fix p assume "p \<in> thread_cells n w h r"
  then obtain x k where p: "p = (r + k * n) * w + x" "1 \<le> x" "x + 1 < w" "r + k * n + 1 < h"
    unfolding thread_cells_def by blast
  show "p \<in> {r * w + x | x. 1 \<le> x \<and> x + 1 < w} \<union> thread_cells n w h (r + n)"
  proof (cases k)
    case 0
    with p show ?thesis by auto
  next
    case (Suc k')
    with p have "p = (r + n + k' * n) * w + x" "r + n + k' * n + 1 < h"
      by (simp_all add: algebra_simps)
    with p(2,3) have "p \<in> thread_cells n w h (r + n)" unfolding thread_cells_def by blast
    then show ?thesis by simp
  qed
next
  fix p assume "p \<in> {r * w + x | x. 1 \<le> x \<and> x + 1 < w} \<union> thread_cells n w h (r + n)"
  then consider x where "p = r * w + x" "1 \<le> x" "x + 1 < w"
    | x k where "p = (r + n + k * n) * w + x" "1 \<le> x" "x + 1 < w" "r + n + k * n + 1 < h"
    unfolding thread_cells_def by blast
  then show "p \<in> thread_cells n w h r"
  proof cases
    case 1
    then have "p = (r + 0 * n) * w + x" "r + 0 * n + 1 < h" using assms by simp_all
    with 1(2,3) show ?thesis unfolding thread_cells_def by blast
  next
    case 2
    then have "p = (r + Suc k * n) * w + x" "r + Suc k * n + 1 < h"
      by (simp_all add: algebra_simps)
    with 2(2,3) show ?thesis unfolding thread_cells_def by blast
  qed
qed

lemma row_cells:
  "(\<Union>j\<in>set [int r * int w + 1..int r * int w + 1 + int w - 2 - 1]. {nat j})
   = {r * w + x | x. 1 \<le> x \<and> x + 1 < w}"
proof (intro set_eqI iffI)
  fix p assume "p \<in> (\<Union>j\<in>set [int r * int w + 1..int r * int w + 1 + int w - 2 - 1]. {nat j})"
  then obtain j where j: "int r * int w + 1 \<le> j" "j \<le> int r * int w + 1 + int w - 2 - 1" "p = nat j"
    by auto
  then have "p = r * w + nat (j - int r * int w)" "1 \<le> nat (j - int r * int w)"
      "nat (j - int r * int w) + 1 < w"
    by (simp_all add: nat_add_distrib nat_mult_distrib flip: of_nat_mult)
  then show "p \<in> {r * w + x | x. 1 \<le> x \<and> x + 1 < w}" by blast
next
  fix p assume "p \<in> {r * w + x | x. 1 \<le> x \<and> x + 1 < w}"
  then obtain x where "p = r * w + x" "1 \<le> x" "x + 1 < w" by blast
  then have "int p \<in> set [int r * int w + 1..int r * int w + 1 + int w - 2 - 1]"
    by auto
  moreover have "p = nat (int p)" by simp
  ultimately show "p \<in> (\<Union>j\<in>set [int r * int w + 1..int r * int w + 1 + int w - 2 - 1]. {nat j})"
    by blast
qed

lemma thread_loop_wide:
  assumes wf: "width img = w" "height img = h" "length inp = w * h" "g_defined w h g"
    and w: "3 \<le> w" and n: "1 \<le> n"
  shows "length (fst s) = w * h \<Longrightarrow> 1 \<le> r \<Longrightarrow>
         \<exists>s'. thread_loop n img inp g (neighbor_offsets img) ((int h - 1) * int w - 1)
                 (int r * int w + 1) s = Some s' \<and>
              stepped w h inp g (thread_cells n w h r) s s'"
proof (induction "h - r" arbitrary: r s rule: less_induct)
  case less
  show ?case
  proof (cases "r + 1 < h")
    case False
    then have empty: "thread_cells n w h r = {}" by (auto simp: thread_cells_def)
    from False have "int h - 1 \<le> int r" by simp
    then have "(int h - 1) * int w \<le> int r * int w" by (intro mult_right_mono) simp_all
    then have stop: "\<not> int r * int w + 1 < (int h - 1) * int w - 1" by simp
    show ?thesis
      by (subst thread_loop.simps) (simp add: stop empty stepped_empty)
  next
    case True
    from True have "int r + 1 \<le> int h - 1" by simp
    then have "(int r + 1) * int w \<le> (int h - 1) * int w" by (intro mult_right_mono) simp_all
    then have go: "int r * int w + 1 < (int h - 1) * int w - 1"
      using w by (simp add: algebra_simps)
    have "\<exists>s1. for_each [int r * int w + 1..int r * int w + 1 + int w - 2 - 1]
             (\<lambda>j. process_pixel_internal j inp g (neighbor_offsets img)) s = Some s1 \<and>
           stepped w h inp g
             (\<Union>j\<in>set [int r * int w + 1..int r * int w + 1 + int w - 2 - 1]. {nat j}) s s1"
    proof (rule for_each_stepped [OF _ less.prems(1)])
      fix j and t :: step_state
      assume j: "j \<in> set [int r * int w + 1..int r * int w + 1 + int w - 2 - 1]"
        and t: "length (fst t) = w * h"
      define x where "x = nat (j - int r * int w)"
      have x: "1 \<le> x" "x + 1 < w" and jx: "j = int (r * w + x)" "nat j = r * w + x"
        using j by (auto simp: x_def nat_add_distrib nat_mult_distrib simp flip: of_nat_mult)
      have "\<exists>s'. process_pixel_internal (int (r * w + x)) inp g (neighbor_offsets img) t = Some s' \<and>
              stepped w h inp g {r * w + x} t s'"
        by (rule interior_pixel_stepped [OF wf x _ _ t]) (use less.prems(2) True in simp_all)
      then show "\<exists>s'. process_pixel_internal j inp g (neighbor_offsets img) t = Some s' \<and>
              stepped w h inp g {nat j} t s'"
        unfolding jx(2) unfolding jx(1) .
    qed
    then obtain s1 where s1:
      "for_each [int r * int w + 1..int r * int w + 1 + int w - 2 - 1]
             (\<lambda>j. process_pixel_internal j inp g (neighbor_offsets img)) s = Some s1"
      "stepped w h inp g {r * w + x | x. 1 \<le> x \<and> x + 1 < w} s s1"
      unfolding row_cells by blast
    have l1: "length (fst s1) = w * h" using stepped_length [OF s1(2)] less.prems(1) by simp
    have nxt: "max (int r * int w + 1) (int r * int w + 1 + int w - 2)
                + int (n - 1) * int w + 1 + 1 = int (r + n) * int w + 1"
      using w n by (simp add: algebra_simps of_nat_diff)
    have dec: "h - (r + n) < h - r" using True n by arith
    have rn: "1 \<le> r + n" using n by simp
    obtain s2 where s2:
      "thread_loop n img inp g (neighbor_offsets img) ((int h - 1) * int w - 1)
         (int (r + n) * int w + 1) s1 = Some s2"
      "stepped w h inp g (thread_cells n w h (r + n)) s1 s2"
      using less.hyps [OF dec l1 rn] by blast
    have "stepped w h inp g (thread_cells n w h r) s s2"
      using stepped_trans [OF s1(2) s2(2)] thread_cells_unfold [OF n True, of w] by simp
    moreover have "thread_loop n img inp g (neighbor_offsets img) ((int h - 1) * int w - 1)
                 (int r * int w + 1) s = Some s2"
      by (subst thread_loop.simps)
         (simp only: go if_True Let_def wf(1) s1(1) option.simps nxt s2(1))
    ultimately show ?thesis by blast
  qed
qed

lemma thread_loop_stepped:
  assumes wf: "width img = w" "height img = h" "length inp = w * h" "g_defined w h g"
    and n: "1 \<le> n" and len: "length (fst s) = w * h" and r: "1 \<le> r"
  shows "\<exists>s'. thread_loop n img inp g (neighbor_offsets img) ((int h - 1) * int w - 1)
                 (int r * int w + 1) s = Some s' \<and>
              stepped w h inp g (thread_cells n w h r) s s'"
proof (cases "3 \<le> w")
  case True
  then show ?thesis by (rule thread_loop_wide [OF wf _ n len r])
next
  case False
  then have "thread_cells n w h r = {}" by (auto simp: thread_cells_def)
  moreover have "thread_loop n img inp g (neighbor_offsets img) ((int h - 1) * int w - 1)
                 (int r * int w + 1) s = Some s"
    by (rule thread_loop_narrow) (use False wf(1) in simp)
  ultimately show ?thesis by (simp add: stepped_empty)
qed

lemma interior_loop_thread_loop:
  "interior_loop img inp g ofs im idx s = thread_loop 1 img inp g ofs im idx s"
proof (induction img inp g ofs im idx s rule: interior_loop.induct)
  case (1 img inp g ofs im idx s)
  show ?case
    apply (subst interior_loop.simps)
    apply (subst thread_loop.simps)
    using 1 apply (auto simp: Let_def split: option.splits)
    done
qed

lemma thread_stepped:
  assumes wf: "width img = w" "height img = h" "length inp = w * h" "g_defined w h g"
    and n: "1 \<le> n" and len: "length out = w * h"
  shows "\<exists>s'. process_iteration_thread n img inp g (neighbor_offsets img)
                ((int h - 1) * int w - 1) t out = Some s' \<and>
              stepped w h inp g (thread_cells n w h (Suc t)) (out, True) s'"
proof -
  have idx: "int (width img) + int t * int (width img) + 1 = int (Suc t) * int w + 1"
    by (simp add: wf(1) algebra_simps)
  show ?thesis
    unfolding process_iteration_thread_def idx
    by (rule thread_loop_stepped [OF wf n]) (simp_all add: len)
qed

lemma borders_stepped:
  assumes wf: "width img = w" "height img = h" "length inp = w * h" "g_defined w h g"
    and pos: "0 < w" "0 < h" and len: "length out = w * h"
  shows "\<exists>s'. process_iteration_borders_thread img inp g (neighbor_offsets img) out = Some s' \<and>
              stepped w h inp g (border_cells w h) (out, True) s'"
proof -
  have "length (fst (out, True)) = w * h" using len by simp
  from border_loops [OF wf pos this] show ?thesis
    unfolding process_iteration_borders_thread_def wf(1,2) by auto
qed

lemma stepped_flag:
  "stepped w h inp g S (out, True) (out', ret) \<Longrightarrow> stepped w h inp g S (out, c) (out', c \<and> ret)"
  by (auto simp: stepped_def)

lemma run_threads_stepped:
  assumes body: "\<And>i out. i \<in> set js \<Longrightarrow> length out = m \<Longrightarrow>
                   \<exists>s'. f i out = Some s' \<and> stepped w h inp g (S i) (out, True) s'"
    and len: "length out = m"
  shows "\<exists>s'. run_threads (map f js) out c = Some s' \<and>
              stepped w h inp g (\<Union>i\<in>set js. S i) (out, c) s'"
  using body len
proof (induction js arbitrary: out c)
  case Nil
  then show ?case by (simp add: stepped_empty)
next
  case (Cons i js)
  obtain out1 ret where s1: "f i out = Some (out1, ret)" "stepped w h inp g (S i) (out, True) (out1, ret)"
    using Cons.prems(1) [of i out] Cons.prems(2) by auto
  have l1: "length out1 = m" using stepped_length [OF s1(2)] Cons.prems(2) by simp
  obtain s2 where s2: "run_threads (map f js) out1 (c \<and> ret) = Some s2"
      "stepped w h inp g (\<Union>i\<in>set js. S i) (out1, c \<and> ret) s2"
    using Cons.IH [OF _ l1, of "c \<and> ret"] Cons.prems(1) by auto
  have "stepped w h inp g (S i \<union> (\<Union>i\<in>set js. S i)) (out, c) s2"
    by (rule stepped_trans [OF stepped_flag [OF s1(2)] s2(2)])
  then show ?case using s1(1) s2(1) by simp
qed

lemma thread_cells_less: "p \<in> thread_cells n w h r \<Longrightarrow> p < w * h"
  unfolding thread_cells_def by (auto intro!: cell_index_less)

lemma border_cells_cases:
  assumes "p \<in> border_cells w h"
  obtains x where "0 \<le> x" "x < int w" "p = 0 * w + nat x"
  | x where "0 \<le> x" "x < int w" "p = nat (int h - 1) * w + nat x"
  | y where "1 \<le> y" "y \<le> int h - 2" "p = nat y * w + 0"
  | y where "1 \<le> y" "y \<le> int h - 2" "p = nat y * w + nat (int w - 1)"
  using assms unfolding border_cells_def by auto

lemma border_cells_less:
  assumes pos: "0 < w" "0 < h" and p: "p \<in> border_cells w h"
  shows "p < w * h"
  using p
proof (cases rule: border_cells_cases)
  case (1 x)
  then show ?thesis using cell_index_less [of "nat x" w 0 h] pos by simp
next
  case (2 x)
  then show ?thesis using cell_index_less [of "nat x" w "nat (int h - 1)" h] pos by simp
next
  case (3 y)
  then show ?thesis using cell_index_less [of 0 w "nat y" h] pos by simp
next
  case (4 y)
  then show ?thesis using cell_index_less [of "nat (int w - 1)" w "nat y" h] pos by simp
qed

lemma all_cells_covered:
  assumes pos: "0 < w" "0 < h" and n: "1 \<le> n"
  shows "(\<Union>t\<in>{..<n}. thread_cells n w h (Suc t)) \<union> border_cells w h = {..<w * h}"
proof (intro set_eqI iffI)
  fix p assume "p \<in> (\<Union>t\<in>{..<n}. thread_cells n w h (Suc t)) \<union> border_cells w h"
  then show "p \<in> {..<w * h}"
    using thread_cells_less border_cells_less [OF pos] by auto
next
  fix p assume "p \<in> {..<w * h}"
  then have pl: "p < w * h" by simp
  define x y where "x = p mod w" and "y = p div w"
  have x: "x < w" and y: "y < h" and p: "p = y * w + x"
    using pos pl by (simp_all add: x_def y_def less_mult_imp_div_less mult.commute)
  consider "y = 0" | "y = h - 1" | "x = 0" "1 \<le> y" "y + 1 < h" | "x = w - 1" "1 \<le> y" "y + 1 < h"
    | "1 \<le> x" "x + 1 < w" "1 \<le> y" "y + 1 < h"
    using x y by linarith
  then show "p \<in> (\<Union>t\<in>{..<n}. thread_cells n w h (Suc t)) \<union> border_cells w h"
  proof cases
    case 1
    have "int x \<in> {0..int w - 1}" "p = 0 * w + nat (int x)" using x p 1 by simp_all
    then have "p \<in> border_cells w h" unfolding border_cells_def by blast
    then show ?thesis by simp
  next
    case 2
    have "int x \<in> {0..int w - 1}" "p = nat (int h - 1) * w + nat (int x)"
      using x p 2 pos by (simp_all add: nat_diff_distrib)
    then have "p \<in> border_cells w h" unfolding border_cells_def by blast
    then show ?thesis by simp
  next
    case 3
    have "int y \<in> {1..int h - 2}" "p = nat (int y) * w + 0" using p 3 by simp_all
    then have "p \<in> border_cells w h" unfolding border_cells_def by blast
    then show ?thesis by simp
  next
    case 4
    have "int y \<in> {1..int h - 2}" "p = nat (int y) * w + nat (int w - 1)"
      using p 4 pos by (simp_all add: nat_diff_distrib)
    then have "p \<in> border_cells w h" unfolding border_cells_def by blast
    then show ?thesis by simp
  next
    case 5
    define t k where "t = (y - 1) mod n" and "k = (y - 1) div n"
    have "t < n" using n by (simp add: t_def)
    moreover have "Suc t + k * n = y" using 5(3) by (simp add: t_def k_def)
    then have "p = (Suc t + k * n) * w + x" "Suc t + k * n + 1 < h" using p 5(4) by simp_all
    with 5(1,2) have "p \<in> thread_cells n w h (Suc t)" unfolding thread_cells_def by blast
    ultimately show ?thesis by blast
  qed
qed

lemma stepped_all:
  assumes "stepped w h inp g {..<w * h} (out, True) s'" "length out = w * h" "length inp = w * h"
  shows "s' = (step_cells w h g inp, step_cells w h g inp = inp)"
proof -
  have "fst s' = step_cells w h g inp"
    using assms(1,2) by (intro nth_equalityI) (simp_all add: stepped_def step_cells_def)
  moreover have "snd s' \<longleftrightarrow> step_cells w h g inp = inp"
    using assms by (auto simp: stepped_def step_cells_def list_eq_iff_nth_eq)
  ultimately show ?thesis by (cases s') simp
qed

lemma length_workers: "length (workers n img inp g) = Suc n"
  by (simp add: workers_def Let_def)

lemma workers_nth:
  "i < n \<Longrightarrow> workers n img inp g ! i
     = process_iteration_thread n img inp g (neighbor_offsets img)
         ((int (height img) - 1) * int (width img) - 1) i"
  "workers n img inp g ! n
     = process_iteration_borders_thread img inp g (neighbor_offsets img)"
  by (simp_all add: workers_def Let_def nth_append)

lemma schedule_result:
  assumes wf: "width img = w" "height img = h" "length inp = w * h" "g_defined w h g"
    and pos: "0 < w" "0 < h" and n: "1 \<le> n" and len: "length out = w * h"
    and sched: "set sched = {..n}"
  shows "run_threads (map ((!) (workers n img inp g)) sched) out True
         = Some (step_cells w h g inp, step_cells w h g inp = inp)"
proof -
  define S where "S i = (if i < n then thread_cells n w h (Suc i) else border_cells w h)" for i
  have cover: "(\<Union>i\<in>set sched. S i) = {..<w * h}"
  proof -
    have "(\<Union>i\<in>{..n}. S i) = (\<Union>t\<in>{..<n}. S t) \<union> S n"
      by (auto simp: less_Suc_eq_le [symmetric] less_Suc_eq)
    also have "\<dots> = (\<Union>t\<in>{..<n}. thread_cells n w h (Suc t)) \<union> border_cells w h"
      by (simp add: S_def)
    finally show ?thesis using all_cells_covered [OF pos n] sched by simp
  qed
  have "\<exists>s'. run_threads (map ((!) (workers n img inp g)) sched) out True = Some s' \<and>
              stepped w h inp g (\<Union>i\<in>set sched. S i) (out, True) s'"
  proof (rule run_threads_stepped [OF _ len])
    fix i and out :: "real list"
    assume i: "i \<in> set sched" and l: "length out = w * h"
    show "\<exists>s'. (workers n img inp g ! i) out = Some s' \<and> stepped w h inp g (S i) (out, True) s'"
    proof (cases "i < n")
      case True
      then show ?thesis
        using thread_stepped [OF wf n l, of i] by (simp add: workers_nth S_def wf(1,2))
    next
      case False
      with i sched have "i = n" by auto
      then show ?thesis
        using borders_stepped [OF wf pos l] by (simp add: workers_nth S_def)
    qed
  qed
  then obtain s' where s': "run_threads (map ((!) (workers n img inp g)) sched) out True = Some s'"
    "stepped w h inp g {..<w * h} (out, True) s'"
    unfolding cover by blast
  from stepped_all [OF s'(2) len wf(3)] s'(1) show ?thesis by simp
qed

lemma process_iteration_result:
  assumes wf: "width img = w" "height img = h" "length inp = w * h" "g_defined w h g"
    and pos: "0 < w" "0 < h" and n: "1 \<le> n" and len: "length out = w * h"
  shows "process_iteration n img ia inp out g
         = Some (step_cells w h g inp, step_cells w h g inp = inp)"
proof -
  have "map ((!) (workers n img inp g)) [0..<Suc n] = workers n img inp g"
    using map_nth [of "workers n img inp g"] by (simp only: length_workers)
  moreover have "set [0..<Suc n] = {..n}" by auto
  ultimately show ?thesis
    using schedule_result [OF wf pos n len, of "[0..<Suc n]"]
    by (simp only: process_iteration_def)
qed

lemma process_iteration_seq_result:
  assumes wf: "width img = w" "height img = h" "length inp = w * h" "g_defined w h g"
    and pos: "0 < w" "0 < h" and len: "length out = w * h"
  shows "process_iteration_seq img ia inp out g
         = Some (step_cells w h g inp, step_cells w h g inp = inp)"
proof -
  have l0: "length (fst (out, True)) = w * h" using len by simp
  obtain s0 where s0: "interior_loop img inp g (neighbor_offsets img) ((int h - 1) * int w - 1)
       (int w + 1) (out, True) = Some s0"
     "stepped w h inp g (thread_cells 1 w h 1) (out, True) s0"
    using thread_loop_stepped [OF wf _ l0, of 1 1] by (auto simp: interior_loop_thread_loop)
  have l1: "length (fst s0) = w * h" using stepped_length [OF s0(2)] len by simp
  from border_loops [OF wf pos l1] obtain s1 s2 s3 s4 where b:
      "for_each [0..int w - 1]
        (\<lambda>x. process_pixel_border img x 0 inp g (neighbor_offsets img)) s0 = Some s1"
      "for_each [0..int w - 1]
        (\<lambda>x. process_pixel_border img x (int h - 1) inp g (neighbor_offsets img)) s1 = Some s2"
      "for_each [1..int h - 2]
        (\<lambda>y. process_pixel_border img 0 y inp g (neighbor_offsets img)) s2 = Some s3"
      "for_each [1..int h - 2]
        (\<lambda>y. process_pixel_border img (int w - 1) y inp g (neighbor_offsets img)) s3 = Some s4"
      "stepped w h inp g (border_cells w h) s0 s4"
    by blast
  have run: "process_iteration_seq img ia inp out g = Some s4"
    unfolding process_iteration_seq_def wf(1,2) by (simp add: Let_def s0(1) b(1-4))
  have "thread_cells 1 w h 1 \<union> border_cells w h = {..<w * h}"
    using all_cells_covered [OF pos, of 1] by (simp add: lessThan_Suc)
  then have "stepped w h inp g {..<w * h} (out, True) s4"
    using stepped_trans [OF s0(2) b(5)] by simp
  from stepped_all [OF this len wf(3)] run show ?thesis by simp
qed

lemma thread_cells_iff:
  assumes "i < n"
  shows "c \<in> thread_cells n w h (Suc i) \<longleftrightarrow> c < w * h \<and> worker_cell n w h i c"
proof
  assume "c \<in> thread_cells n w h (Suc i)"
  then obtain x k where c: "c = (Suc i + k * n) * w + x" "1 \<le> x" "x + 1 < w" "Suc i + k * n + 1 < h"
    unfolding thread_cells_def by blast
  define y where "y = Suc i + k * n"
  have cy: "c = y * w + x" by (simp only: c(1) y_def)
  have "x < w" using c(3) by simp
  then have "c mod w = x" "c div w = y" unfolding cy by simp_all
  moreover have "c < w * h" using cell_index_less [of x w y h] c(3,4) by (simp add: cy y_def)
  moreover have "Suc i \<le> y" "(y - Suc i) mod n = 0" "y + 1 < h" using c(4) by (simp_all add: y_def)
  ultimately show "c < w * h \<and> worker_cell n w h i c"
    using c(2,3) assms by (simp add: worker_cell_def)
next
  assume a: "c < w * h \<and> worker_cell n w h i c"
  define x y k where "x = c mod w" and "y = c div w" and "k = (y - Suc i) div n"
  have wc: "1 \<le> x" "x + 1 < w" "y + 1 < h" "Suc i \<le> y" "(y - Suc i) mod n = 0"
    using a assms by (simp_all add: worker_cell_def x_def y_def Let_def)
  have "y - Suc i = k * n" using wc(5) unfolding k_def by auto
  then have y: "y = Suc i + k * n" using wc(4) by simp
  have "c = y * w + x" by (simp add: x_def y_def)
  then show "c \<in> thread_cells n w h (Suc i)"
    unfolding thread_cells_def using wc(1-3) y by blast
qed

lemma border_cells_iff:
  assumes pos: "0 < w" "0 < h" and c: "c < w * h"
  shows "c \<in> border_cells w h \<longleftrightarrow> worker_cell n w h n c"
proof
  assume "c \<in> border_cells w h"
  then show "worker_cell n w h n c"
  proof (cases rule: border_cells_cases)
    case (1 x)
    then have "c div w = 0" by simp
    then show ?thesis by (simp add: worker_cell_def)
  next
    case (2 x)
    then have "c div w = nat (int h - 1)" by simp
    then show ?thesis using pos by (simp add: worker_cell_def nat_diff_distrib)
  next
    case (3 y)
    then have "c mod w = 0" by simp
    then show ?thesis by (simp add: worker_cell_def)
  next
    case (4 y)
    then have "c mod w = nat (int w - 1)" using pos by simp
    then show ?thesis using pos by (simp add: worker_cell_def nat_diff_distrib)
  qed
next
  assume a: "worker_cell n w h n c"
  define x y where "x = c mod w" and "y = c div w"
  have x: "x < w" and y: "y < h" and p: "c = y * w + x"
    using pos c by (simp_all add: x_def y_def less_mult_imp_div_less mult.commute)
  from a have "x = 0 \<or> x + 1 = w \<or> y = 0 \<or> y + 1 = h"
    by (simp add: worker_cell_def x_def y_def Let_def)
  then consider "y = 0" | "y = h - 1" | "x = 0" "1 \<le> y" "y + 1 < h" | "x = w - 1" "1 \<le> y" "y + 1 < h"
    using x y by (elim disjE) linarith+
  then show "c \<in> border_cells w h"
  proof cases
    case 1
    have "int x \<in> {0..int w - 1}" "c = 0 * w + nat (int x)" using x p 1 by simp_all
    then show ?thesis unfolding border_cells_def by blast
  next
    case 2
    have "int x \<in> {0..int w - 1}" "c = nat (int h - 1) * w + nat (int x)"
      using x p 2 pos by (simp_all add: nat_diff_distrib)
    then show ?thesis unfolding border_cells_def by blast
  next
    case 3
    have "int y \<in> {1..int h - 2}" "c = nat (int y) * w + 0" using p 3 by simp_all
    then show ?thesis unfolding border_cells_def by blast
  next
    case 4
    have "int y \<in> {1..int h - 2}" "c = nat (int y) * w + nat (int w - 1)"
      using p 4 pos by (simp_all add: nat_diff_distrib)
    then show ?thesis unfolding border_cells_def by blast
  qed
qed

lemma worker_cell_unique:
  assumes "i \<le> n" "j \<le> n" "worker_cell n w h i c" "worker_cell n w h j c"
  shows "i = j"
proof -
  define y where "y = c div w"
  have border: False if "k < n" "worker_cell n w h k c" "worker_cell n w h n c" for k
    using that by (auto simp: worker_cell_def Let_def)
  have inner: "k = l" if "k < n" "l < n" "k \<le> l" "worker_cell n w h k c" "worker_cell n w h l c" for k l
  proof -
    have k: "Suc k \<le> y" "(y - Suc k) mod n = 0" and l: "Suc l \<le> y" "(y - Suc l) mod n = 0"
      using that by (simp_all add: worker_cell_def Let_def y_def)
    have "y - Suc k = (y - Suc l) + (l - k)" using that(3) l(1) by simp
    then have "(l - k) mod n = 0" using k(2) l(2) by (metis add_cancel_left_left mod_add_left_eq mod_mod_trivial add.commute mod_0)
    moreover have "l - k < n" using that(2) by simp
    ultimately show ?thesis using that(3) by simp
  qed
  consider "i = n" "j = n" | "i < n" "j = n" | "i = n" "j < n" | "i < n" "j < n"
    using assms(1,2) by linarith
  then show ?thesis
  proof cases
    case 1 then show ?thesis by simp
  next
    case 2 with border [of i] assms show ?thesis by simp
  next
    case 3 with border [of j] assms show ?thesis by simp
  next
    case 4
    show ?thesis
    proof (cases "i \<le> j")
      case True with inner [of i j] 4 assms show ?thesis by simp
    next
      case False with inner [of j i] 4 assms show ?thesis by simp
    qed
  qed
qed

lemma worker_cell_exists:
  assumes pos: "0 < w" "0 < h" and n: "1 \<le> n" and c: "c < w * h"
  shows "\<exists>i\<le>n. worker_cell n w h i c"
proof -
  have "c \<in> (\<Union>t\<in>{..<n}. thread_cells n w h (Suc t)) \<union> border_cells w h"
    using all_cells_covered [OF pos n] c by simp
  then show ?thesis
  proof
    assume "c \<in> (\<Union>t\<in>{..<n}. thread_cells n w h (Suc t))"
    then obtain t where "t < n" "c \<in> thread_cells n w h (Suc t)" by auto
    then show ?thesis using thread_cells_iff [of t n c w h] by (intro exI [of _ t]) simp
  next
    assume "c \<in> border_cells w h"
    then show ?thesis using border_cells_iff [OF pos c, of n] by (intro exI [of _ n]) simp
  qed
qed

lemma worker_result:
  assumes wf: "width img = w" "height img = h" "length inp = w * h" "g_defined w h g"
    and pos: "0 < w" "0 < h" and n: "1 \<le> n" and i: "i \<le> n" and len: "length out = w * h"
  shows "\<exists>out' ret. (workers n img inp g ! i) out = Some (out', ret) \<and> length out' = w * h \<and>
           (\<forall>c<w * h. out' ! c = (if worker_cell n w h i c then step_cells w h g inp ! c else out ! c)) \<and>
           (ret \<longleftrightarrow> (\<forall>c<w * h. worker_cell n w h i c \<longrightarrow> step_cells w h g inp ! c = inp ! c))"
proof -
  define S where "S = (if i < n then thread_cells n w h (Suc i) else border_cells w h)"
  have "\<exists>s'. (workers n img inp g ! i) out = Some s' \<and> stepped w h inp g S (out, True) s'"
  proof (cases "i < n")
    case True
    then show ?thesis
      using thread_stepped [OF wf n len, of i] by (simp add: workers_nth S_def wf(1,2))
  next
    case False
    with i have "i = n" by simp
    then show ?thesis
      using borders_stepped [OF wf pos len] by (simp add: workers_nth S_def)
  qed
  then obtain out' ret where r: "(workers n img inp g ! i) out = Some (out', ret)"
    "stepped w h inp g S (out, True) (out', ret)" by auto
  have S: "c \<in> S \<longleftrightarrow> worker_cell n w h i c" if "c < w * h" for c
  proof (cases "i < n")
    case True
    then show ?thesis using thread_cells_iff [OF True, of c w h] that by (simp add: S_def)
  next
    case False
    with i have "i = n" by simp
    then show ?thesis using border_cells_iff [OF pos that, of n] by (simp add: S_def)
  qed
  have sub: "S \<subseteq> {..<w * h}"
    using thread_cells_less border_cells_less [OF pos] by (auto simp: S_def)
  have sc: "step_cells w h g inp ! c = rule_cell w h inp g c" if "c < w * h" for c
    using that by (simp add: step_cells_def)
  have "length out' = w * h" using stepped_length [OF r(2)] len by simp
  moreover have "\<forall>c<w * h. out' ! c = (if worker_cell n w h i c then step_cells w h g inp ! c else out ! c)"
    using r(2) len S sc by (simp add: stepped_def)
  moreover have "ret \<longleftrightarrow> (\<forall>c<w * h. worker_cell n w h i c \<longrightarrow> step_cells w h g inp ! c = inp ! c)"
  proof -
    have "ret \<longleftrightarrow> (\<forall>j\<in>S. rule_cell w h inp g j = inp ! j)" using r(2) by (simp add: stepped_def)
    also have "\<dots> \<longleftrightarrow> (\<forall>c<w * h. worker_cell n w h i c \<longrightarrow> step_cells w h g inp ! c = inp ! c)"
      using S sc sub by (metis lessThan_iff subsetD)
    finally show ?thesis .
  qed
  ultimately show ?thesis using r(1) by blast
qed

subsection \<open>The loop of the run\<close>

lemma length_step_cells: "length (step_cells w h g inp) = w * h"
  by (simp add: step_cells_def)

lemma process_loop_result:
  assumes wf: "width img = w" "height img = h" "g_defined w h g" and pos: "0 < w" "0 < h"
  shows "length a = w * h \<Longrightarrow> length b = w * h \<Longrightarrow> iter < max_iter \<Longrightarrow>
         \<exists>k\<ge>1. iter + k \<le> max_iter \<and>
           process_loop img ia a b g iter = Some ((step_cells w h g ^^ k) a) \<and>
           (\<forall>j. 1 \<le> j \<and> j < k \<longrightarrow>
                (step_cells w h g ^^ j) a \<noteq> (step_cells w h g ^^ (j - 1)) a) \<and>
           (iter + k < max_iter \<longrightarrow>
                (step_cells w h g ^^ k) a = (step_cells w h g ^^ (k - 1)) a)"
proof (induction "max_iter - iter" arbitrary: a b iter rule: less_induct)
  case less
  let ?F = "step_cells w h g"
  have it: "process_iteration N_THREADS img ia a b g = Some (?F a, ?F a = a)"
    by (rule process_iteration_result [OF wf(1,2) less.prems(1) wf(3) pos _ less.prems(2)])
       (simp add: N_THREADS_def)
  show ?case
  proof (cases "?F a \<noteq> a \<and> iter + 1 < max_iter")
    case False
    then have "process_loop img ia a b g iter = Some (?F a)"
      by (subst process_loop.simps) (auto simp: it)
    with False less.prems(3) show ?thesis
      by (intro exI [of _ 1]) auto
  next
    case True
    then have run: "process_loop img ia a b g iter = process_loop img ia (?F a) a g (iter + 1)"
      by (subst process_loop.simps) (simp add: it)
    have dec: "max_iter - (iter + 1) < max_iter - iter" using True by arith
    from less.hyps [OF dec _ less.prems(1), of "?F a"] True
    obtain k where k: "1 \<le> k" "iter + 1 + k \<le> max_iter"
      "process_loop img ia (?F a) a g (iter + 1) = Some ((?F ^^ k) (?F a))"
      "\<forall>j. 1 \<le> j \<and> j < k \<longrightarrow> (?F ^^ j) (?F a) \<noteq> (?F ^^ (j - 1)) (?F a)"
      "iter + 1 + k < max_iter \<longrightarrow> (?F ^^ k) (?F a) = (?F ^^ (k - 1)) (?F a)"
      by (auto simp: length_step_cells)
    have sw: "(?F ^^ m) (?F a) = (?F ^^ Suc m) a" for m by (simp add: funpow_swap1)
    have "\<forall>j. 1 \<le> j \<and> j < Suc k \<longrightarrow> (?F ^^ j) a \<noteq> (?F ^^ (j - 1)) a"
    proof (intro allI impI)
      fix j assume j: "1 \<le> j \<and> j < Suc k"
      show "(?F ^^ j) a \<noteq> (?F ^^ (j - 1)) a"
      proof (cases "j = 1")
        case True
        with \<open>?F a \<noteq> a \<and> iter + 1 < max_iter\<close> show ?thesis by simp
      next
        case False
        with j obtain j' where j': "j = Suc j'" "1 \<le> j'" "j' < k" by (cases j) auto
        with k(4) have "(?F ^^ j') (?F a) \<noteq> (?F ^^ (j' - 1)) (?F a)" by blast
        then show ?thesis unfolding sw using j' by (cases j') simp_all
      qed
    qed
    moreover have "iter + Suc k < max_iter \<longrightarrow> (?F ^^ Suc k) a = (?F ^^ (Suc k - 1)) a"
      using k(1,5) unfolding sw by (cases k) simp_all
    moreover have "process_loop img ia a b g iter = Some ((?F ^^ Suc k) a)"
      using run k(3) unfolding sw by simp
    ultimately show ?thesis using k(2) by (intro exI [of _ "Suc k"]) simp
  qed
qed

subsection \<open>Loops that write arrays\<close>

lemma written_empty: "written G {} xs xs"
  by (simp add: written_def)

lemma written_length: "written G S xs xs' \<Longrightarrow> length xs' = length xs"
  by (simp add: written_def)

lemma written_trans:
  "written G S xs xs' \<Longrightarrow> written G T xs' xs'' \<Longrightarrow> S \<inter> T = {} \<Longrightarrow> written G (S \<union> T) xs xs''"
  unfolding written_def by auto

lemma for_each_append:
  "for_each (xs @ ys) body s = (case for_each xs body s of None \<Rightarrow> None | Some s' \<Rightarrow> for_each ys body s')"
  by (induction xs arbitrary: s) (auto split: option.splits)

lemma for_each_map: "for_each (map f xs) body s = for_each xs (\<lambda>i. body (f i)) s"
  by (induction xs arbitrary: s) (auto split: option.splits)

lemma for_each_product:
  "for_each ys (\<lambda>y. for_each xs (body y)) s = for_each (List.product ys xs) (\<lambda>(y, x). body y x) s"
  by (induction ys arbitrary: s) (auto simp: for_each_append for_each_map split: option.splits)

lemma for_each_invariant:
  assumes body: "\<And>i s. i \<in> set xs \<Longrightarrow> P s \<Longrightarrow> \<exists>s'. body i s = Some s' \<and> P s'"
    and P: "P s"
  shows "\<exists>s'. for_each xs body s = Some s' \<and> P s'"
  using body P
proof (induction xs arbitrary: s)
  case Nil
  then show ?case by simp
next
  case (Cons i xs)
  obtain s1 where s1: "body i s = Some s1" "P s1"
    using Cons.prems(1) [of i s] Cons.prems(2) by auto
  from Cons.IH [OF _ s1(2)] Cons.prems(1) obtain s2 where "for_each xs body s1 = Some s2" "P s2"
    by auto
  with s1(1) show ?case by simp
qed

lemma for_each_written:
  assumes body: "\<And>i s. i \<in> set xs \<Longrightarrow> P s \<Longrightarrow>
                   \<exists>s'. body i s = Some s' \<and> P s' \<and> written G (S i) (proj s) (proj s')"
    and P: "P s" and dist: "distinct xs"
    and disj: "\<And>i j. i \<in> set xs \<Longrightarrow> j \<in> set xs \<Longrightarrow> i \<noteq> j \<Longrightarrow> S i \<inter> S j = {}"
  shows "\<exists>s'. for_each xs body s = Some s' \<and> P s' \<and>
              written G (\<Union>i\<in>set xs. S i) (proj s) (proj s')"
  using body P dist disj
proof (induction xs arbitrary: s)
  case Nil
  then show ?case by (simp add: written_empty)
next
  case (Cons i xs)
  obtain s1 where s1: "body i s = Some s1" "P s1" "written G (S i) (proj s) (proj s1)"
    using Cons.prems(1) [of i s] Cons.prems(2) by auto
  have "\<exists>s'. for_each xs body s1 = Some s' \<and> P s' \<and>
              written G (\<Union>i\<in>set xs. S i) (proj s1) (proj s')"
    using Cons.prems by (intro Cons.IH [OF _ s1(2)]) auto
  then obtain s2 where s2: "for_each xs body s1 = Some s2" "P s2"
      "written G (\<Union>i\<in>set xs. S i) (proj s1) (proj s2)" by blast
  have "S i \<inter> (\<Union>j\<in>set xs. S j) = {}"
    using Cons.prems(3) Cons.prems(4) [of i] by fastforce
  from written_trans [OF s1(3) s2(3) this] s1(1) s2(1,2) show ?case by simp
qed

lemma distinct_grid: "distinct (grid w h)"
  by (simp add: grid_def distinct_product)

lemma set_grid: "set (grid w h) = {(y, x). 0 \<le> y \<and> y < int h \<and> 0 \<le> x \<and> x < int w}"
  by (auto simp: grid_def)

lemma pixel_of_inj:
  assumes "yx \<in> set (grid w h)" "yx' \<in> set (grid w h)" "pixel_of w yx = pixel_of w yx'"
  shows "yx = yx'"
proof -
  obtain y x y' x' where e: "yx = (y, x)" "yx' = (y', x')" by (cases yx, cases yx')
  from assms(1,2) have r: "0 \<le> y" "0 \<le> x" "x < int w" "0 \<le> y'" "0 \<le> x'" "x' < int w"
    by (simp_all add: set_grid e)
  then have l: "nat x < w" "nat x' < w" by simp_all
  from assms(3) have eq: "nat y * w + nat x = nat y' * w + nat x'" by (simp add: pixel_of_def e)
  from arg_cong [OF eq, of "\<lambda>p. p mod w"] l have "nat x = nat x'" by simp
  moreover from arg_cong [OF eq, of "\<lambda>p. p div w"] l have "nat y = nat y'" by simp
  ultimately have "y = y'" "x = x'" using r by linarith+
  then show ?thesis by (simp add: e)
qed

lemma pixel_of_less: "yx \<in> set (grid w h) \<Longrightarrow> pixel_of w yx < w * h"
  by (cases yx) (auto simp: set_grid pixel_of_def intro!: cell_index_less)

lemma pixel_of_surj:
  assumes "p < w * h"
  shows "(int (p div w), int (p mod w)) \<in> set (grid w h)"
    and "pixel_of w (int (p div w), int (p mod w)) = p"
proof -
  have w: "0 < w" using assms by (cases w) simp_all
  have "p div w < h" using assms by (simp add: less_mult_imp_div_less mult.commute)
  then show "(int (p div w), int (p mod w)) \<in> set (grid w h)" using w by (simp add: set_grid)
  show "pixel_of w (int (p div w), int (p mod w)) = p" by (simp add: pixel_of_def)
qed

subsection \<open>Affinities\<close>

lemma rd3:
  assumes "q < n" "length xs = n * 3"
  shows "rd xs (int q * 3) = Some (xs ! (q * 3))"
    "rd xs (int q * 3 + 1) = Some (xs ! (q * 3 + 1))"
    "rd xs (int q * 3 + 2) = Some (xs ! (q * 3 + 2))"
proof -
  have "nat (int q * 3) = q * 3" "nat (int q * 3 + 1) = q * 3 + 1" "nat (int q * 3 + 2) = q * 3 + 2"
    by (simp_all add: nat_add_distrib nat_mult_distrib)
  then show "rd xs (int q * 3) = Some (xs ! (q * 3))"
    "rd xs (int q * 3 + 1) = Some (xs ! (q * 3 + 1))"
    "rd xs (int q * 3 + 2) = Some (xs ! (q * 3 + 2))"
    using assms by (simp_all add: rd_def)
qed

lemma calc_g_written:
  assumes wf: "width img = w" "height img = h" "length ia = w * h * 3"
    and yx: "(y, x) \<in> set (grid w h)" and len: "length g = w * h * 8"
  shows "\<exists>g'. calc_g img ia x y g = Some g' \<and> length g' = w * h * 8 \<and>
           written (\<lambda>_ j. Some (affinity w ia (j div 8) (j mod 8)))
             (g_cells w h (pixel_of w (y, x))) g g'"
proof -
  define xn yn p where "xn = nat x" and "yn = nat y" and "p = yn * w + xn"
  have xy: "x = int xn" "y = int yn" "xn < w" "yn < h"
    using yx by (auto simp: set_grid xn_def yn_def)
  have pl: "p < w * h" unfolding p_def by (rule cell_index_less [OF xy(3,4)])
  have pm: "p mod w = xn" "p div w = yn" using xy(3) by (simp_all add: p_def)
  have pix: "pixel_of w (y, x) = p" by (simp add: pixel_of_def p_def xn_def yn_def)
  have idx: "int xn + int yn * int w = int p" by (simp add: p_def)
  let ?body = "\<lambda>i g_array.
           if int xn + nx8 ! i < 0 \<or> int xn + nx8 ! i \<ge> int w \<or>
              int yn + ny8 ! i < 0 \<or> int yn + ny8 ! i \<ge> int h
           then Some g_array
           else do {
             let neighbor_offset = (int xn + nx8 ! i + (int yn + ny8 ! i) * int w) * 3;
             p0 \<leftarrow> rd ia (int p * 3);
             n0 \<leftarrow> rd ia neighbor_offset;
             p1 \<leftarrow> rd ia (int p * 3 + 1);
             n1 \<leftarrow> rd ia (neighbor_offset + 1);
             p2 \<leftarrow> rd ia (int p * 3 + 2);
             n2 \<leftarrow> rd ia (neighbor_offset + 2);
             let C = sqrtf ((p0 - n0) * (p0 - n0) + (p1 - n1) * (p1 - n1) + (p2 - n2) * (p2 - n2));
             wr g_array (int p * 8 + int i) (Some (1 - C / maxC))
           }"
  let ?S = "\<lambda>d. if in_bounds w h (int xn) (int yn) d then {p * 8 + d} else {}"
  have run: "calc_g img ia x y g = for_each [0..<8] ?body g"
    unfolding calc_g_def Let_def wf(1,2) xy(1,2) idx ..
  have "\<exists>g'. for_each [0..<8] ?body g = Some g' \<and> length g' = w * h * 8 \<and>
          written (\<lambda>_ j. Some (affinity w ia (j div 8) (j mod 8)))
            (\<Union>d\<in>set [0..<8]. ?S d) ((\<lambda>s. s) g) ((\<lambda>s. s) g')"
  proof (rule for_each_written [where P = "\<lambda>s. length s = w * h * 8" and proj = "\<lambda>s. s"])
    fix d and s :: "real option list"
    assume d: "d \<in> set [0..<8]" and s: "length s = w * h * 8"
    show "\<exists>s'. ?body d s = Some s' \<and> length s' = w * h * 8 \<and>
            written (\<lambda>_ j. Some (affinity w ia (j div 8) (j mod 8))) (?S d) s s'"
    proof (cases "in_bounds w h (int xn) (int yn) d")
      case False
      then show ?thesis using s by (simp add: out_of_bounds_iff written_empty)
    next
      case True
      define q where "q = neighbor w p d"
      have q0: "0 \<le> int p + nx8 ! d + ny8 ! d * int w"
        and q1: "int p + nx8 ! d + ny8 ! d * int w < int (w * h)"
        using neighbor_index_ok [OF xy(3,4) True] by (simp_all add: p_def)
      have ql: "q < w * h" using q0 q1 unfolding q_def neighbor_def by (simp only: nat_less_iff)
      have no: "(int xn + nx8 ! d + (int yn + ny8 ! d) * int w) * 3 = int q * 3"
        using q0 by (simp add: q_def neighbor_def algebra_simps p_def)
      have cl: "p * 8 + d < length s" using pl d s by simp
      have dm: "(p * 8 + d) div 8 = p" "(p * 8 + d) mod 8 = d" using d by simp_all
      have w: "wr s (int p * 8 + int d) v = Some (s[p * 8 + d := v])" for v
        using wr_nat [OF cl, of v] by simp
      have aff: "1 - sqrtf ((ia ! (p * 3) - ia ! (q * 3)) * (ia ! (p * 3) - ia ! (q * 3)) +
                    (ia ! (p * 3 + 1) - ia ! (q * 3 + 1)) * (ia ! (p * 3 + 1) - ia ! (q * 3 + 1)) +
                    (ia ! (p * 3 + 2) - ia ! (q * 3 + 2)) * (ia ! (p * 3 + 2) - ia ! (q * 3 + 2))) / maxC
                 = affinity w ia p d"
        by (simp add: affinity_def color_distance_def q_def power2_eq_square)
      have "?body d s = Some (s[p * 8 + d := Some (affinity w ia p d)])"
        using True
        by (simp only: out_of_bounds_iff if_False Let_def no rd3 [OF pl wf(3)] rd3 [OF ql wf(3)]
              Option.bind.simps w aff not_True_eq_False)
      moreover have "written (\<lambda>_ j. Some (affinity w ia (j div 8) (j mod 8))) {p * 8 + d} s
                       (s[p * 8 + d := Some (affinity w ia p d)])"
        using cl d by (simp add: written_def nth_list_update dm)
      ultimately show ?thesis using True s by simp
    qed
  next
    show "length g = w * h * 8" by (rule len)
    show "distinct [0..<8]" by simp
    fix i j :: nat assume "i \<noteq> j"
    then show "?S i \<inter> ?S j = {}" by simp
  qed
  moreover have "(\<Union>d\<in>set [0..<8]. ?S d) = g_cells w h p"
    by (auto simp: g_cells_def pm split: if_splits)
  ultimately show ?thesis unfolding run pix by simp
qed

lemma g_cells_disjoint: "p \<noteq> p' \<Longrightarrow> g_cells w h p \<inter> g_cells w h p' = {}"
  by (auto simp: g_cells_def)

lemma calc_g_all_written:
  assumes wf: "width img = w" "height img = h" "length ia = w * h * 3"
    and len: "length g = w * h * 8"
  shows "\<exists>g'. calc_g_all img ia g = Some g' \<and> length g' = w * h * 8 \<and>
           written (\<lambda>_ j. Some (affinity w ia (j div 8) (j mod 8)))
             (\<Union>yx\<in>set (grid w h). g_cells w h (pixel_of w yx)) g g'"
proof -
  have run: "calc_g_all img ia g = for_each (grid w h) (\<lambda>(y, x). calc_g img ia x y) g"
    by (simp add: calc_g_all_def for_each_product grid_def wf(1,2))
  have "\<exists>g'. for_each (grid w h) (\<lambda>(y, x). calc_g img ia x y) g = Some g' \<and>
          length g' = w * h * 8 \<and>
          written (\<lambda>_ j. Some (affinity w ia (j div 8) (j mod 8)))
            (\<Union>yx\<in>set (grid w h). g_cells w h (pixel_of w yx)) ((\<lambda>s. s) g) ((\<lambda>s. s) g')"
  proof (rule for_each_written [where P = "\<lambda>s. length s = w * h * 8" and proj = "\<lambda>s. s"])
    fix yx and s :: "real option list"
    assume yx: "yx \<in> set (grid w h)" and s: "length s = w * h * 8"
    obtain y x where e: "yx = (y, x)" by (cases yx)
    show "\<exists>s'. (case yx of (y, x) \<Rightarrow> calc_g img ia x y) s = Some s' \<and> length s' = w * h * 8 \<and>
            written (\<lambda>_ j. Some (affinity w ia (j div 8) (j mod 8)))
              (g_cells w h (pixel_of w yx)) s s'"
      using calc_g_written [OF wf _ s, of y x] yx by (simp add: e)
  next
    show "length g = w * h * 8" by (rule len)
    show "distinct (grid w h)" by (rule distinct_grid)
    fix i j assume "i \<in> set (grid w h)" "j \<in> set (grid w h)" "i \<noteq> j"
    then have "pixel_of w i \<noteq> pixel_of w j" using pixel_of_inj by blast
    then show "g_cells w h (pixel_of w i) \<inter> g_cells w h (pixel_of w j) = {}"
      by (rule g_cells_disjoint)
  qed
  then show ?thesis unfolding run by simp
qed

lemma g_cells_member:
  assumes "p < w * h" "d < 8"
  shows "(\<exists>yx\<in>set (grid w h). p * 8 + d \<in> g_cells w h (pixel_of w yx))
         \<longleftrightarrow> in_bounds w h (int (p mod w)) (int (p div w)) d"
proof
  assume "\<exists>yx\<in>set (grid w h). p * 8 + d \<in> g_cells w h (pixel_of w yx)"
  then obtain yx d' where "p * 8 + d = pixel_of w yx * 8 + d'" "d' < 8"
     "in_bounds w h (int (pixel_of w yx mod w)) (int (pixel_of w yx div w)) d'"
    unfolding g_cells_def by blast
  moreover from this assms(2) have "p = pixel_of w yx \<and> d = d'" by presburger
  ultimately show "in_bounds w h (int (p mod w)) (int (p div w)) d" by simp
next
  assume "in_bounds w h (int (p mod w)) (int (p div w)) d"
  then have "p * 8 + d \<in> g_cells w h p" using assms(2) unfolding g_cells_def by blast
  with pixel_of_surj [OF assms(1)] show
    "\<exists>yx\<in>set (grid w h). p * 8 + d \<in> g_cells w h (pixel_of w yx)"
    by metis
qed

lemma calc_g_all_fresh:
  assumes wf: "width img = w" "height img = h" "length ia = w * h * 3"
  shows "\<exists>g. calc_g_all img ia (replicate (w * h * 8) None) = Some g \<and> length g = w * h * 8 \<and>
           (\<forall>p<w * h. \<forall>d<8. g ! (p * 8 + d) =
              (if in_bounds w h (int (p mod w)) (int (p div w)) d
               then Some (affinity w ia p d) else None))"
proof -
  from calc_g_all_written [OF wf, of "replicate (w * h * 8) None"]
  obtain g where g: "calc_g_all img ia (replicate (w * h * 8) None) = Some g"
    "length g = w * h * 8"
    "written (\<lambda>_ j. Some (affinity w ia (j div 8) (j mod 8)))
       (\<Union>yx\<in>set (grid w h). g_cells w h (pixel_of w yx)) (replicate (w * h * 8) None) g"
    by auto
  have "g ! (p * 8 + d) =
          (if in_bounds w h (int (p mod w)) (int (p div w)) d
           then Some (affinity w ia p d) else None)" if "p < w * h" "d < 8" for p d
  proof -
    have l: "p * 8 + d < w * h * 8" using that by simp
    show ?thesis
      using g(3) l that(2) unfolding written_def
      by (simp add: g_cells_member [OF that])
  qed
  with g(1,2) show ?thesis by blast
qed

lemma calc_g_all_defined:
  assumes wf: "width img = w" "height img = h" "length ia = w * h * 3"
    and g: "calc_g_all img ia (replicate (w * h * 8) None) = Some g"
  shows "g_defined w h g"
  using calc_g_all_fresh [OF wf] g by (auto simp: g_defined_def)

lemma round_even_bounds: "\<lfloor>x\<rfloor> \<le> round_even x \<and> round_even x \<le> \<lfloor>x\<rfloor> + 1"
  by (simp add: round_even_def Let_def)

lemma round_even_mono:
  assumes "x \<le> y"
  shows "round_even x \<le> round_even y"
proof (cases "\<lfloor>x\<rfloor> = \<lfloor>y\<rfloor>")
  case True
  have "x - of_int \<lfloor>x\<rfloor> \<le> y - of_int \<lfloor>x\<rfloor>" using assms by simp
  then show ?thesis unfolding round_even_def Let_def True [symmetric] by auto
next
  case False
  have "\<lfloor>x\<rfloor> \<le> \<lfloor>y\<rfloor>" using assms by (rule floor_mono)
  with False have "\<lfloor>x\<rfloor> + 1 \<le> \<lfloor>y\<rfloor>" by simp
  then show ?thesis
    using round_even_bounds [of x] round_even_bounds [of y] by linarith
qed

lemma round_even_of_int: "round_even (of_int n) = n"
  by (simp add: round_even_def)

lemma round_even_near:
  assumes "\<bar>x - of_int n\<bar> < 1 / 2"
  shows "round_even x = n"
proof (cases "of_int n \<le> x")
  case True
  then have "\<lfloor>x\<rfloor> = n" using assms by (intro floor_unique) simp_all
  then show ?thesis using assms True by (simp add: round_even_def)
next
  case False
  then have "\<lfloor>x\<rfloor> = n - 1" using assms by (intro floor_unique) simp_all
  then show ?thesis using assms False by (simp add: round_even_def)
qed

lemma floor_log2_unit:
  assumes "1 \<le> x" "x < 2"
  shows "\<lfloor>log 2 x\<rfloor> = 0"
proof -
  have "0 \<le> log 2 x" using assms by simp
  moreover have "log 2 x < 1" using assms by (simp add: log_less_iff)
  ultimately show ?thesis by (intro floor_unique) simp_all
qed

lemma binary_round_unit:
  assumes "1 \<le> x" "x < 2"
  shows "binary_round p x = of_int (round_even (x * 2 ^ p)) / 2 ^ p"
proof -
  have "\<bar>x\<bar> = x" "x \<noteq> 0" using assms by simp_all
  moreover have "2 powr (- real p) = 1 / 2 ^ p"
    by (simp add: powr_minus powr_realpow inverse_eq_divide)
  ultimately show ?thesis
    by (simp add: binary_round_def floor_log2_unit [OF assms] Let_def)
qed

lemma binary64_literal: "binary64 1.732050808 = 7800463373495567 / 2 ^ 52"
proof -
  have "round_even (1.732050808 * 2 ^ 52) = 7800463373495567"
    by (rule round_even_near) simp_all
  then show ?thesis
    unfolding binary64_def by (subst binary_round_unit) simp_all
qed

lemma maxC_value: "maxC = 14529495 / 8388608"
proof -
  have "round_even (7800463373495567 / 2 ^ 52 * 2 ^ 23) = 14529495"
    by (rule round_even_near) simp_all
  then show ?thesis
    unfolding maxC_def binary64_literal binary32_def
    by (subst binary_round_unit) simp_all
qed

lemma sqrt3_bounds: "14529495 / 8388608 < sqrt 3" "sqrt 3 < 29058991 / 16777216"
proof -
  have "(14529495 / 8388608 :: real)\<^sup>2 < 3" by (simp add: power2_eq_square)
  then show "14529495 / 8388608 < sqrt 3" by (rule real_less_rsqrt)
  have "3 < (29058991 / 16777216 :: real)\<^sup>2" by (simp add: power2_eq_square)
  then show "sqrt 3 < 29058991 / 16777216" by (intro real_less_lsqrt) simp_all
qed




lemma binary_round_nonneg:
  assumes "0 \<le> x"
  shows "0 \<le> binary_round p x"
proof -
  have "0 \<le> round_even (x / 2 powr r)" for r
  proof -
    have "0 \<le> x / 2 powr r" using assms by simp
    then have "0 \<le> \<lfloor>x / 2 powr r\<rfloor>" by simp
    then show ?thesis using round_even_bounds [of "x / 2 powr r"] by linarith
  qed
  then show ?thesis by (simp add: binary_round_def Let_def)
qed

lemma binary_round_small:
  assumes "0 < x" "x < 1"
  shows "binary_round p x \<le> 1"
proof -
  define e where "e = \<lfloor>log 2 x\<rfloor>"
  define u where "u = 2 powr (of_int e - real p)"
  have u: "0 < u" by (simp add: u_def)
  have "2 ^ (p + 1) * u = 2 powr real (p + 1) * 2 powr (of_int e - real p)"
    unfolding u_def by (simp only: powr_realpow [of 2 "p + 1"] zero_less_numeral)
  also have "\<dots> = 2 powr (real (p + 1) + (of_int e - real p))"
    by (simp only: powr_add)
  also have "real (p + 1) + (of_int e - real p) = of_int e + 1" by simp
  finally have pu: "2 ^ (p + 1) * u = 2 powr (of_int e + 1)" .
  have "log 2 x < 0" using assms by simp
  then have "e < 0" unfolding e_def by (simp add: floor_less_iff)
  then have e: "e \<le> - 1" by simp
  have "log 2 x < of_int e + 1" unfolding e_def by linarith
  then have "x < 2 powr (of_int e + 1)" using assms(1) by (simp add: log_less_iff)
  also have "\<dots> = 2 ^ (p + 1) * u" by (rule pu [symmetric])
  finally have "x / u < 2 ^ (p + 1)" using u by (simp add: divide_less_eq)
  then have "\<lfloor>x / u\<rfloor> < 2 ^ (p + 1)" by (simp add: floor_less_iff)
  then have "round_even (x / u) \<le> 2 ^ (p + 1)" using round_even_bounds [of "x / u"] by linarith
  then have "of_int (round_even (x / u)) * u \<le> 2 ^ (p + 1) * u"
    using u by (simp add: of_int_le_iff [symmetric, where 'a = real] del: of_int_le_iff)
  also have "2 ^ (p + 1) * u = 2 powr (of_int e + 1)" by (rule pu)
  also have "\<dots> \<le> 2 powr 0" using e by (intro powr_mono) simp_all
  finally show ?thesis using assms by (simp add: binary_round_def Let_def e_def u_def)
qed

lemma sqrtf_bounds:
  assumes "0 \<le> s" "s \<le> 3"
  shows "0 \<le> sqrtf s \<and> sqrtf s \<le> maxC"
proof -
  have n: "0 \<le> sqrtf s" unfolding sqrtf_def binary32_def using assms by (intro binary_round_nonneg) simp
  have le: "sqrt s \<le> sqrt 3" using assms by simp
  consider "sqrt s = 0" | "0 < sqrt s" "sqrt s < 1" | "1 \<le> sqrt s"
    using real_sqrt_ge_zero [OF assms(1)] by linarith
  then have "sqrtf s \<le> 14529495 / 8388608"
  proof cases
    case 1
    then show ?thesis by (simp add: sqrtf_def binary32_def binary_round_def)
  next
    case 2
    from binary_round_small [OF this, of 23] show ?thesis by (simp add: sqrtf_def binary32_def)
  next
    case 3
    have lt: "sqrt s < 2" using le sqrt3_bounds(2) by linarith
    have "round_even (sqrt s * 2 ^ 23) \<le> round_even (sqrt 3 * 2 ^ 23)"
      using le by (intro round_even_mono) simp
    also have "round_even (sqrt 3 * 2 ^ 23) = 14529495"
      using sqrt3_bounds by (intro round_even_near) simp_all
    finally have "real_of_int (round_even (sqrt s * 2 ^ 23)) \<le> 14529495" by simp
    then show ?thesis
      unfolding sqrtf_def binary32_def binary_round_unit [OF 3 lt] by simp
  qed
  with n show ?thesis by (simp add: maxC_value)
qed

lemma sq_diff_unit:
  fixes a b :: real
  assumes "0 \<le> a" "a \<le> 1" "0 \<le> b" "b \<le> 1"
  shows "(a - b)\<^sup>2 \<le> 1"
proof -
  have "\<bar>a - b\<bar> \<le> 1" using assms by linarith
  then have "\<bar>a - b\<bar>\<^sup>2 \<le> 1\<^sup>2" by (intro power_mono) simp_all
  then show ?thesis by simp
qed

lemma affinity_unit:
  assumes "\<forall>j<length ia. 0 \<le> ia ! j \<and> ia ! j \<le> 1"
    and "p * 3 + 2 < length ia" "neighbor w p d * 3 + 2 < length ia"
  shows "0 \<le> affinity w ia p d \<and> affinity w ia p d \<le> 1"
proof -
  define q where "q = neighbor w p d"
  have r: "0 \<le> ia ! (p * 3 + k) \<and> ia ! (p * 3 + k) \<le> 1"
          "0 \<le> ia ! (q * 3 + k) \<and> ia ! (q * 3 + k) \<le> 1" if "k \<le> 2" for k
    using assms that by (simp_all add: q_def)
  have "(ia ! (p * 3) - ia ! (q * 3))\<^sup>2 \<le> 1"
       "(ia ! (p * 3 + 1) - ia ! (q * 3 + 1))\<^sup>2 \<le> 1"
       "(ia ! (p * 3 + 2) - ia ! (q * 3 + 2))\<^sup>2 \<le> 1"
    using r [of 0] r [of 1] r [of 2] by (simp_all add: sq_diff_unit)
  then have "(ia ! (p * 3) - ia ! (q * 3))\<^sup>2 + (ia ! (p * 3 + 1) - ia ! (q * 3 + 1))\<^sup>2 +
             (ia ! (p * 3 + 2) - ia ! (q * 3 + 2))\<^sup>2 \<le> 3"
    by linarith
  then have "0 \<le> color_distance ia p q \<and> color_distance ia p q \<le> maxC"
    unfolding color_distance_def by (intro sqrtf_bounds) simp_all
  moreover have "0 < maxC" by (simp add: maxC_value)
  ultimately have "0 \<le> color_distance ia p q / maxC" "color_distance ia p q / maxC \<le> 1"
    by (simp_all add: divide_le_eq_1)
  then show ?thesis by (simp add: affinity_def q_def)
qed

subsection \<open>Magnitudes stay in the unit interval\<close>

lemma neighbor_less:
  assumes "p < w * h" "in_bounds w h (int (p mod w)) (int (p div w)) d"
  shows "neighbor w p d < w * h"
proof -
  have w: "0 < w" using assms(1) by (cases w) simp_all
  have x: "p mod w < w" and y: "p div w < h"
    using assms(1) w by (simp_all add: less_mult_imp_div_less mult.commute)
  have p: "p div w * w + p mod w = p" by simp
  from neighbor_index_ok [OF x y assms(2)] show ?thesis
    unfolding neighbor_def p by (simp only: nat_less_iff)
qed

lemma candidate_unit:
  assumes "g_unit w h g" "unit_field inp" "length inp = w * h" "p < w * h" "d < 8"
    "in_bounds w h (int (p mod w)) (int (p div w)) d"
  shows "\<bar>candidate w inp g p d\<bar> \<le> 1"
proof -
  obtain c where c: "g ! (p * 8 + d) = Some c" "\<bar>c\<bar> \<le> 1"
    using assms(1,4,5,6) unfolding g_unit_def by blast
  have "\<bar>inp ! neighbor w p d\<bar> \<le> 1"
    using neighbor_less [OF assms(4,6)] assms(2,3) by (simp add: unit_field_def)
  with c(2) have "\<bar>c\<bar> * \<bar>inp ! neighbor w p d\<bar> \<le> 1 * 1" by (intro mult_mono) simp_all
  then show ?thesis by (simp add: candidate_def c(1) abs_mult)
qed

lemma foldl_conquer_unit:
  "\<bar>v\<bar> \<le> 1 \<Longrightarrow> \<forall>d\<in>set ds. \<bar>candidate w inp g p d\<bar> \<le> 1 \<Longrightarrow>
   \<bar>foldl (conquer w inp g p) v ds\<bar> \<le> 1"
proof (induction ds arbitrary: v)
  case Nil
  then show ?case by simp
next
  case (Cons d ds)
  have "\<bar>conquer w inp g p v d\<bar> \<le> 1" using Cons.prems by (simp add: conquer_def)
  with Cons.IH [of "conquer w inp g p v d"] Cons.prems(2) show ?case by simp
qed

lemma foldl_conquer_seed:
  "\<bar>v\<bar> = 1 \<Longrightarrow> \<forall>d\<in>set ds. \<bar>candidate w inp g p d\<bar> \<le> 1 \<Longrightarrow>
   foldl (conquer w inp g p) v ds = v"
proof (induction ds)
  case Nil
  then show ?case by simp
next
  case (Cons d ds)
  have "conquer w inp g p v d = v" using Cons.prems by (simp add: conquer_def)
  with Cons show ?case by simp
qed

lemma rule_cell_unit:
  assumes "g_unit w h g" "unit_field inp" "length inp = w * h" "p < w * h"
  shows "\<bar>rule_cell w h inp g p\<bar> \<le> 1"
  unfolding rule_cell_def
proof (rule foldl_conquer_unit)
  show "\<bar>inp ! p\<bar> \<le> 1" using assms(2,3,4) by (simp add: unit_field_def)
  show "\<forall>d\<in>set (filter (in_bounds w h (int (p mod w)) (int (p div w))) [0..<8]).
          \<bar>candidate w inp g p d\<bar> \<le> 1"
    using candidate_unit [OF assms] by auto
qed

lemma rule_cell_seed:
  assumes "g_unit w h g" "unit_field inp" "length inp = w * h" "p < w * h" "\<bar>inp ! p\<bar> = 1"
  shows "rule_cell w h inp g p = inp ! p"
  unfolding rule_cell_def
proof (rule foldl_conquer_seed [OF assms(5)])
  show "\<forall>d\<in>set (filter (in_bounds w h (int (p mod w)) (int (p div w))) [0..<8]).
          \<bar>candidate w inp g p d\<bar> \<le> 1"
    using candidate_unit [OF assms(1-4)] by auto
qed

lemma step_cells_unit:
  assumes "g_unit w h g" "unit_field inp" "length inp = w * h"
  shows "unit_field (step_cells w h g inp)"
  using rule_cell_unit [OF assms] by (simp add: unit_field_def step_cells_def)

lemma step_cells_seed:
  assumes "g_unit w h g" "unit_field inp" "length inp = w * h" "p < w * h" "\<bar>inp ! p\<bar> = 1"
  shows "step_cells w h g inp ! p = inp ! p"
  using rule_cell_seed [OF assms] assms(4) by (simp add: step_cells_def)

lemma funpow_step_unit:
  assumes "g_unit w h g" "unit_field a" "length a = w * h"
  shows "unit_field ((step_cells w h g ^^ k) a) \<and> length ((step_cells w h g ^^ k) a) = w * h"
proof (induction k)
  case 0
  show ?case using assms by simp
next
  case (Suc k)
  then show ?case using step_cells_unit [OF assms(1)] by (simp add: length_step_cells)
qed

lemma funpow_step_seed:
  assumes "g_unit w h g" "unit_field a" "length a = w * h" "p < w * h" "\<bar>a ! p\<bar> = 1"
  shows "(step_cells w h g ^^ k) a ! p = a ! p"
proof (induction k)
  case 0
  show ?case by simp
next
  case (Suc k)
  have "step_cells w h g ((step_cells w h g ^^ k) a) ! p = (step_cells w h g ^^ k) a ! p"
    using funpow_step_unit [OF assms(1-3), of k] assms(4,5) Suc
    by (intro step_cells_seed [OF assms(1)]) simp_all
  with Suc show ?case by simp
qed

lemma g_unit_defined: "length g = w * h * 8 \<Longrightarrow> g_unit w h g \<Longrightarrow> g_defined w h g"
  unfolding g_unit_def g_defined_def by fastforce

lemma calc_g_all_unit:
  assumes wf: "width img = w" "height img = h" "length ia = w * h * 3"
    and col: "\<forall>j<length ia. 0 \<le> ia ! j \<and> ia ! j \<le> 1"
    and g: "calc_g_all img ia (replicate (w * h * 8) None) = Some g"
  shows "\<forall>p<w * h. \<forall>d<8. in_bounds w h (int (p mod w)) (int (p div w)) d \<longrightarrow>
           (\<exists>c. g ! (p * 8 + d) = Some c \<and> 0 \<le> c \<and> c \<le> 1)"
proof (intro allI impI)
  fix p d assume p: "p < w * h" and d: "d < 8"
    and b: "in_bounds w h (int (p mod w)) (int (p div w)) d"
  have "g ! (p * 8 + d) = Some (affinity w ia p d)"
    using calc_g_all_fresh [OF wf] g p d b by auto
  moreover have "0 \<le> affinity w ia p d \<and> affinity w ia p d \<le> 1"
    using neighbor_less [OF p b] p wf(3) by (intro affinity_unit [OF col]) simp_all
  ultimately show "\<exists>c. g ! (p * 8 + d) = Some c \<and> 0 \<le> c \<and> c \<le> 1" by simp
qed

subsection \<open>Smoothing\<close>

lemma out_of_bounds9_iff:
  "(x + nx9 ! d < 0 \<or> int w \<le> x + nx9 ! d \<or> y + ny9 ! d < 0 \<or> int h \<le> y + ny9 ! d)
   \<longleftrightarrow> \<not> in_bounds9 w h x y d"
  by (auto simp: in_bounds9_def)

lemma neighbor9_index_ok:
  assumes "x < w" "y < h" "in_bounds9 w h (int x) (int y) d"
  shows "0 \<le> int (y * w + x) + nx9 ! d + ny9 ! d * int w"
    and "int (y * w + x) + nx9 ! d + ny9 ! d * int w < int (w * h)"
proof -
  obtain x' y' :: nat where x': "int x' = int x + nx9 ! d" "x' < w"
    and y': "int y' = int y + ny9 ! d" "y' < h"
    using assms(3) unfolding in_bounds9_def
    by (metis nat_int zless_nat_eq_int_zless int_nat_eq)
  have eq: "int (y * w + x) + nx9 ! d + ny9 ! d * int w = int (y' * w + x')"
    using x'(1) y'(1) by (simp add: algebra_simps)
  show "0 \<le> int (y * w + x) + nx9 ! d + ny9 ! d * int w" unfolding eq by simp
  show "int (y * w + x) + nx9 ! d + ny9 ! d * int w < int (w * h)"
    unfolding eq using cell_index_less [OF x'(2) y'(2)] by linarith
qed

lemma rd3_wr3:
  assumes "q < n" "length xs = n * 3"
  shows "wr xs (int q * 3) v = Some (xs[q * 3 := v])"
    "wr xs (int q * 3 + 1) v = Some (xs[q * 3 + 1 := v])"
    "wr xs (int q * 3 + 2) v = Some (xs[q * 3 + 2 := v])"
proof -
  have "nat (int q * 3) = q * 3" "nat (int q * 3 + 1) = q * 3 + 1" "nat (int q * 3 + 2) = q * 3 + 2"
    by (simp_all add: nat_add_distrib nat_mult_distrib)
  then show "wr xs (int q * 3) v = Some (xs[q * 3 := v])"
    "wr xs (int q * 3 + 1) v = Some (xs[q * 3 + 1 := v])"
    "wr xs (int q * 3 + 2) v = Some (xs[q * 3 + 2 := v])"
    using assms by (simp_all add: wr_def)
qed

text \<open>the loop over the nine offsets: the three cells of the pixel receive the sums\<close>

lemma blur_offsets:
  assumes wf: "xn < w" "yn < h" "length array = w * h * 3" and p: "p = yn * w + xn"
  shows "length temp = w * h * 3 \<Longrightarrow>
    \<exists>temp'. for_each ds
      (\<lambda>i (temp, n_pixels).
          if int xn + nx9 ! i < 0 \<or> int xn + nx9 ! i \<ge> int w \<or>
             int yn + ny9 ! i < 0 \<or> int yn + ny9 ! i \<ge> int h
          then Some (temp, n_pixels)
          else do {
            let neighbor_index = (int xn + nx9 ! i + (int yn + ny9 ! i) * int w) * 3;
            t0 \<leftarrow> rd temp (int p * 3);
            a0 \<leftarrow> rd array neighbor_index;
            temp \<leftarrow> wr temp (int p * 3) (t0 + a0);
            t1 \<leftarrow> rd temp (int p * 3 + 1);
            a1 \<leftarrow> rd array (neighbor_index + 1);
            temp \<leftarrow> wr temp (int p * 3 + 1) (t1 + a1);
            t2 \<leftarrow> rd temp (int p * 3 + 2);
            a2 \<leftarrow> rd array (neighbor_index + 2);
            temp \<leftarrow> wr temp (int p * 3 + 2) (t2 + a2);
            Some (temp, n_pixels + 1)
          })
      (temp, n)
    = Some (temp', n + int (length (filter (in_bounds9 w h (int xn) (int yn)) ds))) \<and>
      length temp' = w * h * 3 \<and>
      (\<forall>j<w * h * 3. temp' ! j =
         (if j div 3 = p
          then temp ! j + channel_sum w array p (filter (in_bounds9 w h (int xn) (int yn)) ds) (j mod 3)
          else temp ! j))"
proof (induction ds arbitrary: temp n)
  case Nil
  then show ?case by (simp add: channel_sum_def)
next
  case (Cons d ds)
  let ?body = "\<lambda>i (temp, n_pixels).
          if int xn + nx9 ! i < 0 \<or> int xn + nx9 ! i \<ge> int w \<or>
             int yn + ny9 ! i < 0 \<or> int yn + ny9 ! i \<ge> int h
          then Some (temp, n_pixels)
          else do {
            let neighbor_index = (int xn + nx9 ! i + (int yn + ny9 ! i) * int w) * 3;
            t0 \<leftarrow> rd temp (int p * 3);
            a0 \<leftarrow> rd array neighbor_index;
            temp \<leftarrow> wr temp (int p * 3) (t0 + a0);
            t1 \<leftarrow> rd temp (int p * 3 + 1);
            a1 \<leftarrow> rd array (neighbor_index + 1);
            temp \<leftarrow> wr temp (int p * 3 + 1) (t1 + a1);
            t2 \<leftarrow> rd temp (int p * 3 + 2);
            a2 \<leftarrow> rd array (neighbor_index + 2);
            temp \<leftarrow> wr temp (int p * 3 + 2) (t2 + a2);
            Some (temp, n_pixels + 1)
          }"
  have pl: "p < w * h" unfolding p by (rule cell_index_less [OF wf(1,2)])
  have unfold: "for_each (d # ds) ?body (temp, n) = for_each ds ?body s1"
    if "?body d (temp, n) = Some s1" for s1
    using that by (simp only: for_each.simps option.simps)
  show ?case
  proof (cases "in_bounds9 w h (int xn) (int yn) d")
    case False
    then have st: "?body d (temp, n) = Some (temp, n)" by (simp add: out_of_bounds9_iff)
    have f: "filter (in_bounds9 w h (int xn) (int yn)) (d # ds)
             = filter (in_bounds9 w h (int xn) (int yn)) ds"
      using False by simp
    show ?thesis unfolding unfold [OF st] f by (rule Cons.IH [OF Cons.prems])
  next
    case True
    define q where "q = neighbor9 w p d"
    have q0: "0 \<le> int p + nx9 ! d + ny9 ! d * int w"
      and q1: "int p + nx9 ! d + ny9 ! d * int w < int (w * h)"
      using neighbor9_index_ok [OF wf(1,2) True] by (simp_all add: p)
    have ql: "q < w * h" using q0 q1 unfolding q_def neighbor9_def by (simp only: nat_less_iff)
    have no: "(int xn + nx9 ! d + (int yn + ny9 ! d) * int w) * 3 = int q * 3"
      using q0 by (simp add: q_def neighbor9_def algebra_simps p)
    define t1 where "t1 = temp[p * 3 := temp ! (p * 3) + array ! (q * 3)]"
    define t2 where "t2 = t1[p * 3 + 1 := t1 ! (p * 3 + 1) + array ! (q * 3 + 1)]"
    define t3 where "t3 = t2[p * 3 + 2 := t2 ! (p * 3 + 2) + array ! (q * 3 + 2)]"
    have l: "length t1 = w * h * 3" "length t2 = w * h * 3" "length t3 = w * h * 3"
      using Cons.prems by (simp_all add: t1_def t2_def t3_def)
    have step: "?body d (temp, n) = Some (t3, n + 1)"
      using True
      by (simp only: out_of_bounds9_iff if_False Let_def no prod.case not_True_eq_False
            rd3 [OF pl Cons.prems] rd3 [OF pl l(1)] rd3 [OF pl l(2)] rd3 [OF ql wf(3)]
            rd3_wr3 [OF pl Cons.prems] rd3_wr3 [OF pl l(1)] rd3_wr3 [OF pl l(2)]
            Option.bind.simps t1_def [symmetric] t2_def [symmetric] t3_def [symmetric])
    have t3: "t3 ! j = (if j div 3 = p then temp ! j + array ! (q * 3 + j mod 3) else temp ! j)"
      if "j < w * h * 3" for j
    proof -
      have c0: "t3 ! (p * 3) = temp ! (p * 3) + array ! (q * 3)"
        and c1: "t3 ! (p * 3 + 1) = temp ! (p * 3 + 1) + array ! (q * 3 + 1)"
        and c2: "t3 ! (p * 3 + 2) = temp ! (p * 3 + 2) + array ! (q * 3 + 2)"
        using Cons.prems pl by (simp_all add: t3_def t2_def t1_def)
      show ?thesis
      proof (cases "j div 3 = p")
        case False
        then have "j \<noteq> p * 3" "j \<noteq> p * 3 + 1" "j \<noteq> p * 3 + 2" by auto
        then have "t3 ! j = temp ! j" by (simp add: t3_def t2_def t1_def)
        then show ?thesis using False by simp
      next
        case True
        have j: "j = p * 3 + j mod 3" using True by presburger
        have "j mod 3 = 0 \<or> j mod 3 = 1 \<or> j mod 3 = 2" by presburger
        then show ?thesis
        proof (elim disjE)
          assume m: "j mod 3 = 0"
          with j have "j = p * 3" by simp
          with c0 m True show ?thesis by simp
        next
          assume m: "j mod 3 = 1"
          with j have "j = p * 3 + 1" by simp
          with c1 m True show ?thesis by simp
        next
          assume m: "j mod 3 = 2"
          with j have "j = p * 3 + 2" by simp
          with c2 m True show ?thesis by simp
        qed
      qed
    qed
    from Cons.IH [OF l(3), of "n + 1"] obtain temp' where
      r: "for_each ds ?body (t3, n + 1)
          = Some (temp', n + 1 + int (length (filter (in_bounds9 w h (int xn) (int yn)) ds)))"
         "length temp' = w * h * 3"
         "\<forall>j<w * h * 3. temp' ! j =
           (if j div 3 = p
            then t3 ! j + channel_sum w array p (filter (in_bounds9 w h (int xn) (int yn)) ds) (j mod 3)
            else t3 ! j)"
      by blast
    have f: "filter (in_bounds9 w h (int xn) (int yn)) (d # ds)
             = d # filter (in_bounds9 w h (int xn) (int yn)) ds"
      using True by simp
    have "\<forall>j<w * h * 3. temp' ! j =
         (if j div 3 = p
          then temp ! j + channel_sum w array p (d # filter (in_bounds9 w h (int xn) (int yn)) ds) (j mod 3)
          else temp ! j)"
      using r(3) t3 by (simp add: channel_sum_def q_def)
    moreover have "n + 1 + int (length (filter (in_bounds9 w h (int xn) (int yn)) ds))
        = n + int (length (d # filter (in_bounds9 w h (int xn) (int yn)) ds))" by simp
    ultimately show ?thesis unfolding unfold [OF step] f using r(1,2) by metis
  qed
qed

lemma blur_cells_iff: "j \<in> blur_cells p \<longleftrightarrow> j div 3 = p"
  unfolding blur_cells_def by (simp only: insert_iff empty_iff) presburger

lemma blur_pixel_written:
  assumes wf: "width img = w" "height img = h" "length array = w * h * 3"
    and yx: "(y, x) \<in> set (grid w h)" and len: "length temp = w * h * 3"
  shows "\<exists>temp'. blur_pixel img array y x temp = Some temp' \<and> length temp' = w * h * 3 \<and>
           written (\<lambda>v j. (v + channel_sum w array (j div 3) (contributors w h (j div 3)) (j mod 3))
                           / real (length (contributors w h (j div 3))))
             (blur_cells (pixel_of w (y, x))) temp temp'"
proof -
  define xn yn p where "xn = nat x" and "yn = nat y" and "p = yn * w + xn"
  have xy: "x = int xn" "y = int yn" "xn < w" "yn < h"
    using yx by (auto simp: set_grid xn_def yn_def)
  have pl: "p < w * h" unfolding p_def by (rule cell_index_less [OF xy(3,4)])
  have pm: "p mod w = xn" "p div w = yn" using xy(3) by (simp_all add: p_def)
  have pix: "pixel_of w (y, x) = p" by (simp add: pixel_of_def p_def xn_def yn_def)
  have idx: "(int xn + int yn * int w) * 3 = int p * 3" by (simp add: p_def)
  have con: "filter (in_bounds9 w h (int xn) (int yn)) [0..<9] = contributors w h p"
    by (simp add: contributors_def pm del: upt_Suc)
  from blur_offsets [OF xy(3,4) wf(3) p_def len, of "[0..<9]" 0] obtain t where
    t: "for_each [0..<9]
      (\<lambda>i (temp, n_pixels).
          if int xn + nx9 ! i < 0 \<or> int xn + nx9 ! i \<ge> int w \<or>
             int yn + ny9 ! i < 0 \<or> int yn + ny9 ! i \<ge> int h
          then Some (temp, n_pixels)
          else do {
            let neighbor_index = (int xn + nx9 ! i + (int yn + ny9 ! i) * int w) * 3;
            t0 \<leftarrow> rd temp (int p * 3);
            a0 \<leftarrow> rd array neighbor_index;
            temp \<leftarrow> wr temp (int p * 3) (t0 + a0);
            t1 \<leftarrow> rd temp (int p * 3 + 1);
            a1 \<leftarrow> rd array (neighbor_index + 1);
            temp \<leftarrow> wr temp (int p * 3 + 1) (t1 + a1);
            t2 \<leftarrow> rd temp (int p * 3 + 2);
            a2 \<leftarrow> rd array (neighbor_index + 2);
            temp \<leftarrow> wr temp (int p * 3 + 2) (t2 + a2);
            Some (temp, n_pixels + 1)
          })
      (temp, 0)
    = Some (t, 0 + int (length (contributors w h p)))"
    "length t = w * h * 3"
    "\<forall>j<w * h * 3. t ! j =
         (if j div 3 = p then temp ! j + channel_sum w array p (contributors w h p) (j mod 3)
          else temp ! j)"
    unfolding con by blast
  define c where "c = real (length (contributors w h p))"
  define t1 where "t1 = t[p * 3 := t ! (p * 3) / c]"
  define t2 where "t2 = t1[p * 3 + 1 := t1 ! (p * 3 + 1) / c]"
  define t3 where "t3 = t2[p * 3 + 2 := t2 ! (p * 3 + 2) / c]"
  have l: "length t1 = w * h * 3" "length t2 = w * h * 3" "length t3 = w * h * 3"
    using t(2) by (simp_all add: t1_def t2_def t3_def)
  have ri: "real_of_int (0 + int (length (contributors w h p))) = c" by (simp add: c_def)
  have run: "blur_pixel img array y x temp = Some t3"
    unfolding blur_pixel_def wf(1,2) xy(1,2) idx Let_def
    by (simp only: t(1) [unfolded Let_def] Option.bind.simps prod.case ri
          rd3 [OF pl t(2)] rd3 [OF pl l(1)] rd3 [OF pl l(2)]
          rd3_wr3 [OF pl t(2)] rd3_wr3 [OF pl l(1)] rd3_wr3 [OF pl l(2)]
          t1_def [symmetric] t2_def [symmetric] t3_def [symmetric])
  have c0: "t3 ! (p * 3) = t ! (p * 3) / c"
    and c1: "t3 ! (p * 3 + 1) = t ! (p * 3 + 1) / c"
    and c2: "t3 ! (p * 3 + 2) = t ! (p * 3 + 2) / c"
    using t(2) pl by (simp_all add: t3_def t2_def t1_def)
  have cell: "t3 ! j = (if j div 3 = p then t ! j / c else t ! j)" if "j < w * h * 3" for j
  proof (cases "j div 3 = p")
    case False
    then have "j \<noteq> p * 3" "j \<noteq> p * 3 + 1" "j \<noteq> p * 3 + 2" by auto
    then have "t3 ! j = t ! j" by (simp add: t3_def t2_def t1_def)
    then show ?thesis using False by simp
  next
    case True
    have j: "j = p * 3 + j mod 3" using True by presburger
    have "j mod 3 = 0 \<or> j mod 3 = 1 \<or> j mod 3 = 2" by presburger
    then show ?thesis
    proof (elim disjE)
      assume m: "j mod 3 = 0"
      with j have "j = p * 3" by simp
      with c0 True show ?thesis by simp
    next
      assume m: "j mod 3 = 1"
      with j have "j = p * 3 + 1" by simp
      with c1 True show ?thesis by simp
    next
      assume m: "j mod 3 = 2"
      with j have "j = p * 3 + 2" by simp
      with c2 True show ?thesis by simp
    qed
  qed
  have "written (\<lambda>v j. (v + channel_sum w array (j div 3) (contributors w h (j div 3)) (j mod 3))
                           / real (length (contributors w h (j div 3))))
             (blur_cells p) temp t3"
    unfolding written_def using l(3) len cell t(3) by (simp add: blur_cells_iff c_def)
  with run l(3) show ?thesis unfolding pix by blast
qed

lemma blur_cells_disjoint: "p \<noteq> p' \<Longrightarrow> blur_cells p \<inter> blur_cells p' = {}"
  by (auto simp: blur_cells_iff)

lemma blur_image_array_result:
  assumes wf: "width img = w" "height img = h" "length array = w * h * 3"
  shows "\<exists>out. blur_image_array img array = Some out \<and> length out = w * h * 3 \<and>
           (\<forall>j<w * h * 3. out ! j = blur_mean w h array j)"
proof -
  let ?G = "\<lambda>v j. (v + channel_sum w array (j div 3) (contributors w h (j div 3)) (j mod 3))
                           / real (length (contributors w h (j div 3)))"
  let ?t0 = "replicate (w * h * 3) (0 :: real)"
  have "\<exists>t. for_each (grid w h) (\<lambda>(y, x). blur_pixel img array y x) ?t0 = Some t \<and>
          length t = w * h * 3 \<and>
          written ?G (\<Union>yx\<in>set (grid w h). blur_cells (pixel_of w yx)) ((\<lambda>s. s) ?t0) ((\<lambda>s. s) t)"
  proof (rule for_each_written [where P = "\<lambda>s. length s = w * h * 3" and proj = "\<lambda>s. s"])
    fix yx and s :: "real list"
    assume yx: "yx \<in> set (grid w h)" and s: "length s = w * h * 3"
    obtain y x where e: "yx = (y, x)" by (cases yx)
    show "\<exists>s'. (case yx of (y, x) \<Rightarrow> blur_pixel img array y x) s = Some s' \<and>
            length s' = w * h * 3 \<and> written ?G (blur_cells (pixel_of w yx)) s s'"
      using blur_pixel_written [OF wf _ s, of y x] yx by (simp add: e)
  next
    show "length ?t0 = w * h * 3" by simp
    show "distinct (grid w h)" by (rule distinct_grid)
    fix i j assume "i \<in> set (grid w h)" "j \<in> set (grid w h)" "i \<noteq> j"
    then have "pixel_of w i \<noteq> pixel_of w j" using pixel_of_inj by blast
    then show "blur_cells (pixel_of w i) \<inter> blur_cells (pixel_of w j) = {}"
      by (rule blur_cells_disjoint)
  qed
  then obtain t where t: "for_each (grid w h) (\<lambda>(y, x). blur_pixel img array y x) ?t0 = Some t"
    "length t = w * h * 3"
    "written ?G (\<Union>yx\<in>set (grid w h). blur_cells (pixel_of w yx)) ?t0 t" by auto
  have cell: "t ! j = blur_mean w h array j" if "j < w * h * 3" for j
  proof -
    have "j div 3 < w * h" using that by simp
    from pixel_of_surj [OF this]
    have "\<exists>yx\<in>set (grid w h). j \<in> blur_cells (pixel_of w yx)"
      by (metis blur_cells_iff)
    then show ?thesis
      using t(3) that unfolding written_def
      by (simp add: blur_mean_def channel_sum_def)
  qed
  have run: "blur_image_array img array = memcpy array t (w * h * 3)"
    by (simp add: blur_image_array_def for_each_product wf(1,2) t(1) [unfolded grid_def])
  have "memcpy array t (w * h * 3) = Some t" using t(2) wf(3) by (simp add: memcpy_def)
  with run cell t(2) show ?thesis by simp
qed

lemma contributors_interior:
  assumes "1 \<le> p mod w" "p mod w + 1 < w" "1 \<le> p div w" "p div w + 1 < h"
  shows "length (contributors w h p) = 9"
proof -
  have "in_bounds9 w h (int (p mod w)) (int (p div w)) i" if "i \<in> set [0..<9]" for i
  proof -
    from that have "i = 0 \<or> i = 1 \<or> i = 2 \<or> i = 3 \<or> i = 4 \<or> i = 5 \<or> i = 6 \<or> i = 7 \<or> i = 8"
      by auto
    then have "- 1 \<le> nx9 ! i \<and> nx9 ! i \<le> 1 \<and> - 1 \<le> ny9 ! i \<and> ny9 ! i \<le> 1"
      by (auto simp: nx9_def ny9_def)
    then show ?thesis using assms unfolding in_bounds9_def by linarith
  qed
  then have "\<forall>i\<in>set [0..<9]. in_bounds9 w h (int (p mod w)) (int (p div w)) i" by blast
  then have "filter (in_bounds9 w h (int (p mod w)) (int (p div w))) [0..<9] = [0..<9]"
    by (rule filter_True)
  then show ?thesis by (simp add: contributors_def)
qed

lemma contributors_self:
  assumes "p < w * h"
  shows "0 \<in> set (contributors w h p)"
proof -
  have w: "0 < w" using assms by (cases w) simp_all
  have "p div w < h" using assms by (simp add: less_mult_imp_div_less mult.commute)
  then have "in_bounds9 w h (int (p mod w)) (int (p div w)) 0"
    using w by (simp add: in_bounds9_def nx9_def ny9_def)
  then show ?thesis by (simp add: contributors_def)
qed

lemma contributors_border:
  assumes "p < w * h" "p mod w = 0 \<or> p mod w + 1 = w \<or> p div w = 0 \<or> p div w + 1 = h"
  shows "length (contributors w h p) < 9"
proof -
  have "\<exists>i\<in>set [0..<9]. \<not> in_bounds9 w h (int (p mod w)) (int (p div w)) i"
  proof -
    from assms(2) show ?thesis
    proof (elim disjE)
      assume "p mod w = 0"
      then have "\<not> in_bounds9 w h (int (p mod w)) (int (p div w)) 4"
        by (simp add: in_bounds9_def nx9_def)
      then show ?thesis by (intro bexI [of _ 4]) simp_all
    next
      assume "p mod w + 1 = w"
      then have "int (p mod w) + 1 = int w" by linarith
      then have "\<not> in_bounds9 w h (int (p mod w)) (int (p div w)) 5"
        by (simp add: in_bounds9_def nx9_def)
      then show ?thesis by (intro bexI [of _ 5]) simp_all
    next
      assume "p div w = 0"
      then have "\<not> in_bounds9 w h (int (p mod w)) (int (p div w)) 2"
        by (simp add: in_bounds9_def ny9_def)
      then show ?thesis by (intro bexI [of _ 2]) simp_all
    next
      assume "p div w + 1 = h"
      then have "int (p div w) + 1 = int h" by linarith
      then have "\<not> in_bounds9 w h (int (p mod w)) (int (p div w)) 7"
        by (simp add: in_bounds9_def ny9_def)
      then show ?thesis by (intro bexI [of _ 7]) simp_all
    qed
  qed
  then obtain i where "i \<in> set [0..<9]" "\<not> in_bounds9 w h (int (p mod w)) (int (p div w)) i"
    by blast
  then have "length (filter (in_bounds9 w h (int (p mod w)) (int (p div w))) [0..<9]) < length [0..<9]"
    by (rule length_filter_less)
  then show ?thesis by (simp add: contributors_def)
qed

subsection \<open>Initialisation, alpha channel and the whole run\<close>

lemma get_pixel_Some:
  assumes "image_ok img" "x < width img" "y < height img"
  shows "get_pixel img (int x) (int y)
         = Some [rows img ! y ! (4 * x), rows img ! y ! (4 * x + 1),
                 rows img ! y ! (4 * x + 2), rows img ! y ! (4 * x + 3)]"
proof -
  have y: "y < length (rows img)" using assms(1,3) by (simp add: image_ok_def)
  then have "rows img ! y \<in> set (rows img)" by simp
  then have l: "4 * width img \<le> length (rows img ! y)" using assms(1) by (simp add: image_ok_def)
  have r: "4 * x + k < length (rows img ! y)" if "k < 4" for k using l assms(2) that by simp
  have c: "rd (rows img ! y) (int x * 4) = Some (rows img ! y ! (4 * x))"
    "rd (rows img ! y) (int x * 4 + 1) = Some (rows img ! y ! (4 * x + 1))"
    "rd (rows img ! y) (int x * 4 + 2) = Some (rows img ! y ! (4 * x + 2))"
    "rd (rows img ! y) (int x * 4 + 3) = Some (rows img ! y ! (4 * x + 3))"
    using rd_nat [OF r [of 0]] rd_nat [OF r [of 1]] rd_nat [OF r [of 2]] rd_nat [OF r [of 3]]
    by (simp_all add: mult.commute add.commute)
  show ?thesis
    unfolding get_pixel_def using assms(2,3) by (simp add: rd_nat [OF y] c)
qed

lemma uint_byte_unit: "0 \<le> real_of_int (uint (c :: 8 word)) / 255 \<and> real_of_int (uint c) / 255 \<le> 1"
proof -
  define r where "r = real_of_int (uint c)"
  have "uint c < 2 ^ 8" using uint_lt2p [of c] by simp
  then have "uint c \<le> 255" by simp
  moreover have "0 \<le> uint c" by simp
  ultimately have "0 \<le> r" "r \<le> 255" unfolding r_def by linarith+
  then have "0 \<le> r / 255 \<and> r / 255 \<le> 1" by simp
  then show ?thesis unfolding r_def .
qed

lemma unit_update:
  fixes xs :: "real list"
  assumes "\<forall>j<length xs. 0 \<le> xs ! j \<and> xs ! j \<le> 1" "0 \<le> v \<and> v \<le> 1"
  shows "\<forall>j<length (xs[i := v]). 0 \<le> xs[i := v] ! j \<and> xs[i := v] ! j \<le> 1"
proof (intro allI impI)
  fix j assume j: "j < length (xs[i := v])"
  show "0 \<le> xs[i := v] ! j \<and> xs[i := v] ! j \<le> 1"
  proof (cases "i = j")
    case True
    then show ?thesis using j assms(2) by simp
  next
    case False
    then show ?thesis using j assms(1) by simp
  qed
qed

lemma rd4:
  "rd [a, b, c, d] 0 = Some a" "rd [a, b, c, d] 1 = Some b"
  "rd [a, b, c, d] 2 = Some c" "rd [a, b, c, d] 3 = Some d"
  by (simp_all add: rd_def)

lemma init_pixel_result:
  assumes ok: "image_ok img" "image_ok overlay"
    and wf: "width img = w" "height img = h" "w \<le> width overlay" "h \<le> height overlay"
    and xy: "xn < w" "yn < h" and p: "p = yn * w + xn"
    and len: "length ia = w * h * 3" "length a = w * h"
    and unit: "\<forall>j<length ia. 0 \<le> ia ! j \<and> ia ! j \<le> 1"
  shows "\<exists>ia' a'. init_pixel img overlay (int yn) (int xn) (ia, a) = Some (ia', a') \<and>
           length ia' = w * h * 3 \<and> length a' = w * h \<and>
           (\<forall>j<length ia'. 0 \<le> ia' ! j \<and> ia' ! j \<le> 1) \<and>
           written (\<lambda>v j. if 128 < uint (rows overlay ! (j div w) ! (4 * (j mod w) + 3))
                          then seed_of overlay (j mod w) (j div w) else v) {p} a a'"
proof -
  have pm: "p mod w = xn" "p div w = yn" using xy(1) by (simp_all add: p)
  have pl: "p < w * h" unfolding p by (rule cell_index_less [OF xy])
  have idx: "(int xn + int yn * int w) * 3 = int p * 3" "int xn + int yn * int w = int p"
    by (simp_all add: p)
  define c0 c1 c2 where "c0 = real_of_int (uint (rows img ! yn ! (4 * xn))) / 255"
    and "c1 = real_of_int (uint (rows img ! yn ! (4 * xn + 1))) / 255"
    and "c2 = real_of_int (uint (rows img ! yn ! (4 * xn + 2))) / 255"
  define t1 where "t1 = ia[p * 3 := c0]"
  define t2 where "t2 = t1[p * 3 + 1 := c1]"
  define t3 where "t3 = t2[p * 3 + 2 := c2]"
  have l: "length t1 = w * h * 3" "length t2 = w * h * 3" "length t3 = w * h * 3"
    using len by (simp_all add: t1_def t2_def t3_def)
  have cu: "0 \<le> c0 \<and> c0 \<le> 1" "0 \<le> c1 \<and> c1 \<le> 1" "0 \<le> c2 \<and> c2 \<le> 1"
    unfolding c0_def c1_def c2_def by (rule uint_byte_unit)+
  have u3: "\<forall>j<length t3. 0 \<le> t3 ! j \<and> t3 ! j \<le> 1"
    unfolding t3_def t2_def t1_def
    by (intro unit_update unit cu)
  have gi: "get_pixel img (int xn) (int yn)
         = Some [rows img ! yn ! (4 * xn), rows img ! yn ! (4 * xn + 1),
                 rows img ! yn ! (4 * xn + 2), rows img ! yn ! (4 * xn + 3)]"
    using xy wf by (intro get_pixel_Some [OF ok(1)]) simp_all
  have go: "get_pixel overlay (int xn) (int yn)
         = Some [rows overlay ! yn ! (4 * xn), rows overlay ! yn ! (4 * xn + 1),
                 rows overlay ! yn ! (4 * xn + 2), rows overlay ! yn ! (4 * xn + 3)]"
    using xy wf by (intro get_pixel_Some [OF ok(2)]) simp_all
  have wa: "wr a (int p) v = Some (a[p := v])" for v using pl len(2) by (simp add: wr_nat)
  have run0: "init_pixel img overlay (int yn) (int xn) (ia, a)
     = (if 128 < uint (rows overlay ! yn ! (4 * xn + 3))
        then if uint (rows overlay ! yn ! (4 * xn + 1)) + 128 < uint (rows overlay ! yn ! (4 * xn))
             then Some (t3, a[p := - 1]) else Some (t3, a[p := 1])
        else Some (t3, a))"
    unfolding init_pixel_def wf(1) idx
    by (simp only: prod.case gi go Option.bind.simps rd4
          rd3_wr3 [OF pl len(1)] rd3_wr3 [OF pl l(1)] rd3_wr3 [OF pl l(2)]
          c0_def [symmetric] c1_def [symmetric] c2_def [symmetric]
          t1_def [symmetric] t2_def [symmetric] t3_def [symmetric] wa)
  have run: "init_pixel img overlay (int yn) (int xn) (ia, a)
     = Some (t3, if 128 < uint (rows overlay ! yn ! (4 * xn + 3))
                 then a[p := seed_of overlay xn yn] else a)"
    unfolding run0 by (simp add: seed_of_def Let_def)
  have "written (\<lambda>v j. if 128 < uint (rows overlay ! (j div w) ! (4 * (j mod w) + 3))
                          then seed_of overlay (j mod w) (j div w) else v) {p} a
          (if 128 < uint (rows overlay ! yn ! (4 * xn + 3))
                 then a[p := seed_of overlay xn yn] else a)"
    using pl len(2) by (simp add: written_def nth_list_update pm)
  with run l(3) u3 len(2) show ?thesis by simp
qed

lemma init_arrays_result:
  assumes ok: "image_ok img" "image_ok overlay"
    and wf: "width img = w" "height img = h" "w \<le> width overlay" "h \<le> height overlay"
    and len: "length ia = w * h * 3" "length a = w * h"
    and unit: "\<forall>j<length ia. 0 \<le> ia ! j \<and> ia ! j \<le> 1"
  shows "\<exists>ia' a'. init_arrays img overlay (ia, a) = Some (ia', a') \<and>
           length ia' = w * h * 3 \<and> length a' = w * h \<and>
           (\<forall>j<length ia'. 0 \<le> ia' ! j \<and> ia' ! j \<le> 1) \<and>
           (\<forall>j<w * h. a' ! j =
              (if 128 < uint (rows overlay ! (j div w) ! (4 * (j mod w) + 3))
               then seed_of overlay (j mod w) (j div w) else a ! j))"
proof -
  let ?G = "\<lambda>v j. if 128 < uint (rows overlay ! (j div w) ! (4 * (j mod w) + 3))
                          then seed_of overlay (j mod w) (j div w) else v"
  let ?P = "\<lambda>s :: real list \<times> real list. length (fst s) = w * h * 3 \<and> length (snd s) = w * h \<and>
              (\<forall>j<length (fst s). 0 \<le> fst s ! j \<and> fst s ! j \<le> 1)"
  have run: "init_arrays img overlay (ia, a)
             = for_each (grid w h) (\<lambda>(y, x). init_pixel img overlay y x) (ia, a)"
    by (simp add: init_arrays_def for_each_product grid_def wf(1,2))
  have "\<exists>s'. for_each (grid w h) (\<lambda>(y, x). init_pixel img overlay y x) (ia, a) = Some s' \<and> ?P s' \<and>
          written ?G (\<Union>yx\<in>set (grid w h). {pixel_of w yx}) (snd (ia, a)) (snd s')"
  proof (rule for_each_written [where P = ?P and proj = snd])
    fix yx and s :: "real list \<times> real list"
    assume yx: "yx \<in> set (grid w h)" and s: "?P s"
    obtain y x where e: "yx = (y, x)" by (cases yx)
    obtain ia1 a1 where s1: "s = (ia1, a1)" by (cases s)
    have xy: "nat x < w" "nat y < h" "0 \<le> x" "0 \<le> y"
      using yx by (auto simp: e set_grid)
    from init_pixel_result [OF ok wf xy(1,2) refl, of ia1 a1] s xy(3,4)
    show "\<exists>s'. (case yx of (y, x) \<Rightarrow> init_pixel img overlay y x) s = Some s' \<and> ?P s' \<and>
            written ?G {pixel_of w yx} (snd s) (snd s')"
      by (auto simp: e s1 pixel_of_def)
  next
    show "?P (ia, a)" using len unit by simp
    show "distinct (grid w h)" by (rule distinct_grid)
    fix i j assume "i \<in> set (grid w h)" "j \<in> set (grid w h)" "i \<noteq> j"
    then have "pixel_of w i \<noteq> pixel_of w j" using pixel_of_inj by blast
    then show "{pixel_of w i} \<inter> {pixel_of w j} = {}" by simp
  qed
  then obtain ia' a' where r: "init_arrays img overlay (ia, a) = Some (ia', a')"
    "length ia' = w * h * 3" "length a' = w * h"
    "\<forall>j<length ia'. 0 \<le> ia' ! j \<and> ia' ! j \<le> 1"
    "written ?G (\<Union>yx\<in>set (grid w h). {pixel_of w yx}) a a'"
    unfolding run by auto
  have "a' ! j = ?G (a ! j) j" if "j < w * h" for j
  proof -
    from pixel_of_surj [OF that] have "j \<in> (\<Union>yx\<in>set (grid w h). {pixel_of w yx})"
      by (metis UN_I singletonI)
    then show ?thesis using r(5) that len(2) unfolding written_def by auto
  qed
  with r(1-4) show ?thesis by blast
qed











lemma int_mul_nat:
  assumes "int (a * b) \<le> INT_MAX"
  shows "int_mul (int a) (int b) = Some (int (a * b))"
proof -
  have e: "int a * int b = int (a * b)" by simp
  have "- INT_MAX - 1 \<le> int (a * b)" by (simp add: INT_MAX_def del: of_nat_mult)
  with assms show ?thesis unfolding int_mul_def e by (simp del: of_nat_mult)
qed

lemma size_mul_small:
  assumes "int n \<le> INT_MAX"
  shows "size_mul (int n) sizeof_float = 4 * n"
proof -
  have n: "n < 2 ^ 31" using assms by (simp add: INT_MAX_def)
  then have "int n mod 2 ^ 64 = int n" by simp
  moreover have "4 * n < 2 ^ 64" using n by simp
  ultimately show ?thesis by (simp add: size_mul_def sizeof_float_def mult.commute)
qed







lemma process_file_int_overflow:
  assumes "2147483647 < width img * height img * 8"
  shows "process_file heap img overlay = None"
proof -
  define n where "n = width img * height img"
  have big: "2147483647 < n * 8" using assms by (simp only: n_def)
  have e: "int (width img) * int (height img) = int n" by (simp add: n_def)
  have "int_mul (int n) 8 = None" using big by (simp add: int_mul_def INT_MAX_def)
  moreover have "int_mul (int (width img)) (int (height img)) = None \<or>
        int_mul (int (width img)) (int (height img)) = Some (int n)"
    unfolding int_mul_def e by simp
  ultimately show ?thesis
    unfolding process_file_def by (auto split: Option.bind_splits)
qed

lemma process_file_out_of_memory:
  assumes small: "width img * height img * 8 \<le> 2147483647"
    and heap: "heap < 64 * (width img * height img)"
  shows "process_file heap img overlay = None"
proof -
  define n where "n = width img * height img"
  have "n * 8 \<le> 2147483647" using small by (simp only: n_def)
  then have le: "int n \<le> INT_MAX" "int (n * 3) \<le> INT_MAX" "int (n * 8) \<le> INT_MAX"
    by (simp_all add: INT_MAX_def)
  have m: "int_mul (int (width img)) (int (height img)) = Some (int n)"
    "int_mul (int n) 3 = Some (int (n * 3))" "int_mul (int n) 8 = Some (int (n * 8))"
    using int_mul_nat [of "width img" "height img"] int_mul_nat [of n 3] int_mul_nat [of n 8] le
    by (simp_all add: n_def del: of_nat_mult)
  have s: "size_mul (int n) sizeof_float = 4 * n" "size_mul (int (n * 3)) sizeof_float = 4 * (n * 3)"
    "size_mul (int (n * 8)) sizeof_float = 4 * (n * 8)"
    using le by (simp_all only: size_mul_small)
  have h: "heap < 64 * n" using heap by (simp add: n_def)
  show ?thesis
    unfolding process_file_def n_def [symmetric]
    apply (simp only: m s Option.bind.simps Let_def nat_int)
    using h apply (auto simp: malloc_def split: Option.bind_splits if_splits)
    done
qed


section \<open>The claims\<close>

lemma upt_8: "[0..<8] = [0, 1, 2, 3, 4, 5, 6, 7]"
  by code_simp

text \<open>
  Claim C2. In an iteration step on a grid of positive width and height, with buffers of
  \<open>width * height\<close> cells and an affinity field written for every in-bounds direction,
  the cell \<open>p\<close> of the new buffer is obtained thus: start from \<open>in[p]\<close>; for the
  in-bounds directions \<open>d\<close> in the order \<open>0, 1, \<dots>, 7\<close>, the candidate
  \<open>g(p, d) * in[neighbor(p, d)]\<close> replaces the value if and only if its absolute value is
  strictly larger than that of the current value. The candidates are read from the
  \<open>in\<close> buffer only: the result does not mention the \<open>out\<close> buffer that was passed in.
\<close>

theorem C2_update_rule:
  assumes "0 < width img" "0 < height img" "1 \<le> n_threads"
    and "length overlay_array_in = width img * height img"
    and "length overlay_array_out = width img * height img"
    and "g_defined (width img) (height img) g_array"
    and "p < width img * height img"
  shows "\<exists>out' converged.
     process_iteration n_threads img image_array overlay_array_in overlay_array_out g_array
       = Some (out', converged) \<and>
     out' ! p =
       foldl (\<lambda>v d. if \<bar>candidate (width img) overlay_array_in g_array p d\<bar> > \<bar>v\<bar>
                     then candidate (width img) overlay_array_in g_array p d else v)
         (overlay_array_in ! p)
         (filter (in_bounds (width img) (height img) (int (p mod width img)) (int (p div width img)))
            [0..<8])"
proof -
  have c: "conquer (width img) overlay_array_in g_array p
           = (\<lambda>v d. if \<bar>candidate (width img) overlay_array_in g_array p d\<bar> > \<bar>v\<bar>
                     then candidate (width img) overlay_array_in g_array p d else v)"
    by (intro ext) (simp add: conquer_def)
  have "process_iteration n_threads img image_array overlay_array_in overlay_array_out g_array
        = Some (step_cells (width img) (height img) g_array overlay_array_in,
                step_cells (width img) (height img) g_array overlay_array_in = overlay_array_in)"
    by (rule process_iteration_result [OF refl refl assms(4,6,1,2,3,5)])
  moreover have "step_cells (width img) (height img) g_array overlay_array_in ! p
        = rule_cell (width img) (height img) overlay_array_in g_array p"
    using assms(7) by (simp add: step_cells_def)
  ultimately show ?thesis by (simp add: rule_cell_def c del: upt_Suc)
qed

theorem C2_update_rule_witness:
  "\<exists>out' converged.
     process_iteration 4 \<lparr>rows = [], width = 2, height = 1\<rparr> [] [1, 0] [0, 0]
       (replicate 16 (Some (1 / 2))) = Some (out', converged) \<and> out' ! 1 = 1 / 2"
  using C2_update_rule [of "\<lparr>rows = [], width = 2, height = 1\<rparr>" 4 "[1, 0]" "[0, 0]"
      "replicate 16 (Some (1 / 2))" 1 "[]"]
  by (simp add: upt_8 g_defined_def in_bounds_def nx8_def ny8_def candidate_def neighbor_def
        del: upt_Suc)

lemma upt_18: "[0..<18] = [0, 1, 2, 3, 4, 5, 6, 7, 8, 9, 10, 11, 12, 13, 14, 15, 16, 17]"
  by code_simp

lemma step_3x6:
  "step_cells 3 6 (replicate 144 (Some (1 / 2)))
     [1, 0, 0, 1, 0, 0, 1, 0, 0, 1, 0, 0, 1, 0, 0, 1, 0, 0]
   = [1, 1 / 2, 0, 1, 1 / 2, 0, 1, 1 / 2, 0, 1, 1 / 2, 0, 1, 1 / 2, 0, 1, 1 / 2, 0]"
  by (simp add: step_cells_def rule_cell_def upt_18 upt_8 in_bounds_def nx8_def ny8_def
        conquer_def candidate_def neighbor_def del: upt_Suc)

text \<open>
  Claim C6. On a grid of positive width and height, for every number \<open>n_threads\<close> of
  interior threads (at least one; the program has four) and every order \<open>sched\<close> in which
  the \<open>n_threads + 1\<close> workers (the interior threads \<open>0, \<dots>, n_threads - 1\<close> and the border
  thread \<open>n_threads\<close>) act on the shared \<open>out\<close> buffer:

  \<^item> the threaded step, in that order and in the order of \<^verbatim>\<open>process_iteration\<close>, and the
    sequential \<^verbatim>\<open>process_iteration\<close> of the \<^verbatim>\<open>#else\<close> branch all end normally with the same
    buffer and the same converged flag: the update rule applied to every cell of the \<open>in\<close>
    buffer, and the flag that says whether that changed nothing;
  \<^item> every worker, started on any content of the \<open>out\<close> buffer, gives the cells of its own
    share (\<open>worker_cell\<close>: interior rows by stride, or the border) the value of the rule,
    which does not depend on that content, leaves every other cell as it was, and returns
    whether none of its cells changed;
  \<^item> every cell belongs to the share of exactly one worker.

  So no cell of the \<open>out\<close> buffer is written by two workers and no worker's result depends
  on what another has written. The schedules themselves are at the granularity of whole
  workers: a schedule is a permutation of the workers.
\<close>

theorem C6_threads_equal_sequential:
  assumes "0 < width img" "0 < height img" "1 \<le> n_threads"
    and "length overlay_array_in = width img * height img"
    and "length overlay_array_out = width img * height img"
    and "g_defined (width img) (height img) g_array"
    and "mset sched = mset [0..<Suc n_threads]"
  shows "run_threads (map ((!) (workers n_threads img overlay_array_in g_array)) sched)
           overlay_array_out True
         = Some (step_cells (width img) (height img) g_array overlay_array_in,
                 step_cells (width img) (height img) g_array overlay_array_in = overlay_array_in) \<and>
         process_iteration n_threads img image_array overlay_array_in overlay_array_out g_array
         = Some (step_cells (width img) (height img) g_array overlay_array_in,
                 step_cells (width img) (height img) g_array overlay_array_in = overlay_array_in) \<and>
         process_iteration_seq img image_array overlay_array_in overlay_array_out g_array
         = Some (step_cells (width img) (height img) g_array overlay_array_in,
                 step_cells (width img) (height img) g_array overlay_array_in = overlay_array_in) \<and>
         (\<forall>i\<le>n_threads. \<forall>out. length out = width img * height img \<longrightarrow>
            (\<exists>out' ret. (workers n_threads img overlay_array_in g_array ! i) out = Some (out', ret) \<and>
               length out' = width img * height img \<and>
               (\<forall>c<width img * height img.
                  out' ! c = (if worker_cell n_threads (width img) (height img) i c
                              then step_cells (width img) (height img) g_array overlay_array_in ! c
                              else out ! c)) \<and>
               (ret \<longleftrightarrow> (\<forall>c<width img * height img.
                  worker_cell n_threads (width img) (height img) i c \<longrightarrow>
                  step_cells (width img) (height img) g_array overlay_array_in ! c
                    = overlay_array_in ! c)))) \<and>
         (\<forall>c<width img * height img.
            \<exists>i\<le>n_threads. worker_cell n_threads (width img) (height img) i c \<and>
              (\<forall>j\<le>n_threads. worker_cell n_threads (width img) (height img) j c \<longrightarrow> j = i))"
proof -
  have "set sched = set [0..<Suc n_threads]" using assms(7) by (rule mset_eq_setD)
  also have "\<dots> = {..n_threads}"
    by (simp only: set_upt atLeastLessThanSuc_atLeastAtMost atLeast0AtMost)
  finally have s: "set sched = {..n_threads}" .
  have w: "\<forall>i\<le>n_threads. \<forall>out. length out = width img * height img \<longrightarrow>
            (\<exists>out' ret. (workers n_threads img overlay_array_in g_array ! i) out = Some (out', ret) \<and>
               length out' = width img * height img \<and>
               (\<forall>c<width img * height img.
                  out' ! c = (if worker_cell n_threads (width img) (height img) i c
                              then step_cells (width img) (height img) g_array overlay_array_in ! c
                              else out ! c)) \<and>
               (ret \<longleftrightarrow> (\<forall>c<width img * height img.
                  worker_cell n_threads (width img) (height img) i c \<longrightarrow>
                  step_cells (width img) (height img) g_array overlay_array_in ! c
                    = overlay_array_in ! c)))"
    using worker_result [OF refl refl assms(4,6,1,2,3)] by blast
  have p: "\<forall>c<width img * height img.
            \<exists>i\<le>n_threads. worker_cell n_threads (width img) (height img) i c \<and>
              (\<forall>j\<le>n_threads. worker_cell n_threads (width img) (height img) j c \<longrightarrow> j = i)"
  proof (intro allI impI)
    fix c assume "c < width img * height img"
    from worker_cell_exists [OF assms(1,2,3) this]
    obtain i where i: "i \<le> n_threads" "worker_cell n_threads (width img) (height img) i c" by blast
    then have "\<forall>j\<le>n_threads. worker_cell n_threads (width img) (height img) j c \<longrightarrow> j = i"
      using worker_cell_unique by blast
    with i show "\<exists>i\<le>n_threads. worker_cell n_threads (width img) (height img) i c \<and>
              (\<forall>j\<le>n_threads. worker_cell n_threads (width img) (height img) j c \<longrightarrow> j = i)"
      by blast
  qed
  show ?thesis
    unfolding schedule_result [OF refl refl assms(4,6,1,2,3,5) s]
      process_iteration_result [OF refl refl assms(4,6,1,2,3,5)]
      process_iteration_seq_result [OF refl refl assms(4,6,1,2,5)]
    using w p by blast
qed

theorem C6_threads_equal_sequential_witness:
  "run_threads
     (map ((!) (workers 4 \<lparr>rows = [], width = 3, height = 6\<rparr>
                  [1, 0, 0, 1, 0, 0, 1, 0, 0, 1, 0, 0, 1, 0, 0, 1, 0, 0]
                  (replicate 144 (Some (1 / 2))))) [4, 2, 0, 3, 1])
     (replicate 18 0) True
   = Some ([1, 1 / 2, 0, 1, 1 / 2, 0, 1, 1 / 2, 0, 1, 1 / 2, 0, 1, 1 / 2, 0, 1, 1 / 2, 0], False) \<and>
   process_iteration 4 \<lparr>rows = [], width = 3, height = 6\<rparr> []
     [1, 0, 0, 1, 0, 0, 1, 0, 0, 1, 0, 0, 1, 0, 0, 1, 0, 0] (replicate 18 0)
     (replicate 144 (Some (1 / 2)))
   = Some ([1, 1 / 2, 0, 1, 1 / 2, 0, 1, 1 / 2, 0, 1, 1 / 2, 0, 1, 1 / 2, 0, 1, 1 / 2, 0], False) \<and>
   process_iteration_seq \<lparr>rows = [], width = 3, height = 6\<rparr> []
     [1, 0, 0, 1, 0, 0, 1, 0, 0, 1, 0, 0, 1, 0, 0, 1, 0, 0] (replicate 18 0)
     (replicate 144 (Some (1 / 2)))
   = Some ([1, 1 / 2, 0, 1, 1 / 2, 0, 1, 1 / 2, 0, 1, 1 / 2, 0, 1, 1 / 2, 0, 1, 1 / 2, 0], False) \<and>
   (\<exists>out' ret. (workers 4 \<lparr>rows = [], width = 3, height = 6\<rparr>
                   [1, 0, 0, 1, 0, 0, 1, 0, 0, 1, 0, 0, 1, 0, 0, 1, 0, 0]
                   (replicate 144 (Some (1 / 2))) ! 2) (replicate 18 0) = Some (out', ret) \<and>
                out' ! 10 = 1 / 2 \<and> out' ! 13 = 0 \<and> \<not> ret)"
proof -
  let ?img = "\<lparr>rows = [], width = 3, height = 6\<rparr>"
  let ?inp = "[1, 0, 0, 1, 0, 0, 1, 0, 0, 1, 0, 0, 1, 0, 0, 1, 0, 0] :: real list"
  let ?g = "replicate 144 (Some (1 / 2 :: real))"
  let ?out = "replicate 18 (0 :: real)"
  have h: "0 < width ?img" "0 < height ?img" "1 \<le> (4 :: nat)"
    "length ?inp = width ?img * height ?img" "length ?out = width ?img * height ?img"
    by simp_all
  have gd: "g_defined (width ?img) (height ?img) ?g" by (simp add: g_defined_def)
  have "[0..<Suc 4] = [0, 1, 2, 3, 4]" by code_simp
  then have m: "mset [4, 2, 0, 3, 1] = mset [0..<Suc 4]" by simp
  note T = C6_threads_equal_sequential [OF h gd m, where image_array = "[]"]
  have s: "step_cells (width ?img) (height ?img) ?g ?inp
      = [1, 1 / 2, 0, 1, 1 / 2, 0, 1, 1 / 2, 0, 1, 1 / 2, 0, 1, 1 / 2, 0, 1, 1 / 2, 0]"
    using step_3x6 by simp
  have a: "run_threads (map ((!) (workers 4 ?img ?inp ?g)) [4, 2, 0, 3, 1]) ?out True
      = Some ([1, 1 / 2, 0, 1, 1 / 2, 0, 1, 1 / 2, 0, 1, 1 / 2, 0, 1, 1 / 2, 0, 1, 1 / 2, 0], False)"
    using T [THEN conjunct1] unfolding s by simp
  have a': "process_iteration 4 ?img [] ?inp ?out ?g
      = Some ([1, 1 / 2, 0, 1, 1 / 2, 0, 1, 1 / 2, 0, 1, 1 / 2, 0, 1, 1 / 2, 0, 1, 1 / 2, 0], False)"
    using T [THEN conjunct2, THEN conjunct1] unfolding s by simp
  have b: "process_iteration_seq ?img [] ?inp ?out ?g
      = Some ([1, 1 / 2, 0, 1, 1 / 2, 0, 1, 1 / 2, 0, 1, 1 / 2, 0, 1, 1 / 2, 0, 1, 1 / 2, 0], False)"
    using T [THEN conjunct2, THEN conjunct2, THEN conjunct1] unfolding s by simp
  from T [THEN conjunct2, THEN conjunct2, THEN conjunct2, THEN conjunct1, rule_format, of 2 ?out]
  obtain out' ret where o: "(workers 4 ?img ?inp ?g ! 2) ?out = Some (out', ret)"
    "\<forall>c<width ?img * height ?img.
        out' ! c = (if worker_cell 4 (width ?img) (height ?img) 2 c
                    then step_cells (width ?img) (height ?img) ?g ?inp ! c else ?out ! c)"
    "ret \<longleftrightarrow> (\<forall>c<width ?img * height ?img. worker_cell 4 (width ?img) (height ?img) 2 c \<longrightarrow>
                  step_cells (width ?img) (height ?img) ?g ?inp ! c = ?inp ! c)"
    using h(5) by auto
  have "out' ! 10 = 1 / 2"
    using o(2) [rule_format, of 10] unfolding s by (simp add: worker_cell_def)
  moreover have "out' ! 13 = 0"
    using o(2) [rule_format, of 13] by (simp add: worker_cell_def)
  moreover have "\<not> ret"
  proof
    assume ret
    with o(3) have "\<forall>c<width ?img * height ?img. worker_cell 4 (width ?img) (height ?img) 2 c \<longrightarrow>
                  step_cells (width ?img) (height ?img) ?g ?inp ! c = ?inp ! c" by simp
    from this [rule_format, of 10] show False unfolding s by (simp add: worker_cell_def)
  qed
  ultimately show ?thesis using a a' b o(1) by blast
qed

text \<open>
  Claim C5. \<open>process_loop\<close> is a total function, and on a grid of positive width and
  height it returns the buffer reached after \<open>k\<close> synchronous steps with
  \<open>1 \<le> k \<le> 2000\<close>, where every step before the \<open>k\<close>-th changed the buffer and, when
  \<open>k < 2000\<close>, the \<open>k\<close>-th step changed nothing. Every iteration step returns the stepped
  buffer together with a converged flag that is true if and only if that buffer equals
  the \<open>in\<close> buffer.
\<close>

theorem C5_terminates_within_max_iter:
  assumes "0 < width img" "0 < height img"
    and "length overlay_array_a = width img * height img"
    and "length overlay_array_b = width img * height img"
    and "g_defined (width img) (height img) g_array"
  shows "(\<exists>k. 1 \<le> k \<and> k \<le> 2000 \<and>
            process_loop img image_array overlay_array_a overlay_array_b g_array 0
              = Some ((step_cells (width img) (height img) g_array ^^ k) overlay_array_a) \<and>
            (\<forall>j. 1 \<le> j \<and> j < k \<longrightarrow>
               (step_cells (width img) (height img) g_array ^^ j) overlay_array_a
               \<noteq> (step_cells (width img) (height img) g_array ^^ (j - 1)) overlay_array_a) \<and>
            (k < 2000 \<longrightarrow>
               (step_cells (width img) (height img) g_array ^^ k) overlay_array_a
               = (step_cells (width img) (height img) g_array ^^ (k - 1)) overlay_array_a)) \<and>
         (\<forall>inp out. length inp = width img * height img \<and> length out = width img * height img \<longrightarrow>
            (\<exists>out'. process_iteration N_THREADS img image_array inp out g_array
                       = Some (out', out' = inp) \<and>
                    out' = step_cells (width img) (height img) g_array inp))"
proof -
  have "\<exists>k\<ge>1. 0 + k \<le> max_iter \<and>
           process_loop img image_array overlay_array_a overlay_array_b g_array 0
             = Some ((step_cells (width img) (height img) g_array ^^ k) overlay_array_a) \<and>
           (\<forall>j. 1 \<le> j \<and> j < k \<longrightarrow>
                (step_cells (width img) (height img) g_array ^^ j) overlay_array_a
                \<noteq> (step_cells (width img) (height img) g_array ^^ (j - 1)) overlay_array_a) \<and>
           (0 + k < max_iter \<longrightarrow>
                (step_cells (width img) (height img) g_array ^^ k) overlay_array_a
                = (step_cells (width img) (height img) g_array ^^ (k - 1)) overlay_array_a)"
    by (rule process_loop_result [OF refl refl assms(5,1,2,3,4)]) (simp add: max_iter_def)
  then have "\<exists>k. 1 \<le> k \<and> k \<le> 2000 \<and>
            process_loop img image_array overlay_array_a overlay_array_b g_array 0
              = Some ((step_cells (width img) (height img) g_array ^^ k) overlay_array_a) \<and>
            (\<forall>j. 1 \<le> j \<and> j < k \<longrightarrow>
               (step_cells (width img) (height img) g_array ^^ j) overlay_array_a
               \<noteq> (step_cells (width img) (height img) g_array ^^ (j - 1)) overlay_array_a) \<and>
            (k < 2000 \<longrightarrow>
               (step_cells (width img) (height img) g_array ^^ k) overlay_array_a
               = (step_cells (width img) (height img) g_array ^^ (k - 1)) overlay_array_a)"
    by (simp add: max_iter_def)
  moreover have "\<exists>out'. process_iteration N_THREADS img image_array inp out g_array
                       = Some (out', out' = inp) \<and>
                    out' = step_cells (width img) (height img) g_array inp"
    if "length inp = width img * height img \<and> length out = width img * height img" for inp out
    using process_iteration_result [OF refl refl _ assms(5,1,2), of inp N_THREADS out image_array] that
    by (simp add: N_THREADS_def)
  ultimately show ?thesis by blast
qed

theorem C5_terminates_within_max_iter_witness:
  "\<exists>k. 1 \<le> k \<and> k \<le> 2000 \<and>
     process_loop \<lparr>rows = [], width = 2, height = 1\<rparr> [] [1, 0] [0, 0]
       (replicate 16 (Some (1 / 2))) 0
     = Some ((step_cells 2 1 (replicate 16 (Some (1 / 2))) ^^ k) [1, 0])"
  using C5_terminates_within_max_iter [of "\<lparr>rows = [], width = 2, height = 1\<rparr>" "[1, 0]" "[0, 0]"
      "replicate 16 (Some (1 / 2))" "[]"]
  by (simp add: g_defined_def) blast

text \<open>
  Claim C9. In the model every access outside an array, and every read of a cell of
  \<^verbatim>\<open>g_array\<close> that \<^verbatim>\<open>calc_g\<close> has not written, makes the result \<open>None\<close>. For every grid
  of positive width and height (1 x 1 and single-row or single-column grids included),
  with \<^verbatim>\<open>g_array\<close> filled by the \<^verbatim>\<open>calc_g\<close> loops from a fresh allocation: exactly the
  cells of out-of-bounds directions stay unwritten, and an iteration step (threaded or
  sequential) ends normally, so it reads no unwritten affinity and touches no strength
  cell outside \<open>[0, width * height)\<close>.
\<close>

theorem C9_accesses_in_bounds:
  assumes "0 < width img" "0 < height img" "1 \<le> n_threads"
    and "length image_array = width img * height img * 3"
    and "length overlay_array_in = width img * height img"
    and "length overlay_array_out = width img * height img"
  shows "\<exists>g. calc_g_all img image_array (replicate (width img * height img * 8) None) = Some g \<and>
           (\<forall>p<width img * height img. \<forall>d<8.
              g ! (p * 8 + d) = None \<longleftrightarrow>
              \<not> in_bounds (width img) (height img) (int (p mod width img)) (int (p div width img)) d) \<and>
           process_iteration n_threads img image_array overlay_array_in overlay_array_out g \<noteq> None \<and>
           process_iteration_seq img image_array overlay_array_in overlay_array_out g \<noteq> None"
proof -
  from calc_g_all_fresh [OF refl refl assms(4)]
  obtain g where g: "calc_g_all img image_array (replicate (width img * height img * 8) None) = Some g"
    "length g = width img * height img * 8"
    "\<forall>p<width img * height img. \<forall>d<8. g ! (p * 8 + d) =
       (if in_bounds (width img) (height img) (int (p mod width img)) (int (p div width img)) d
        then Some (affinity (width img) image_array p d) else None)"
    by blast
  have d: "g_defined (width img) (height img) g"
    by (rule calc_g_all_defined [OF refl refl assms(4) g(1)])
  have "process_iteration n_threads img image_array overlay_array_in overlay_array_out g \<noteq> None"
    unfolding process_iteration_result [OF refl refl assms(5) d assms(1,2,3,6)] by simp
  moreover have "process_iteration_seq img image_array overlay_array_in overlay_array_out g \<noteq> None"
    unfolding process_iteration_seq_result [OF refl refl assms(5) d assms(1,2,6)] by simp
  moreover have "\<forall>p<width img * height img. \<forall>d<8.
              g ! (p * 8 + d) = None \<longleftrightarrow>
              \<not> in_bounds (width img) (height img) (int (p mod width img)) (int (p div width img)) d"
    using g(3) by simp
  ultimately show ?thesis using g(1) by blast
qed

theorem C9_accesses_in_bounds_witness:
  "(\<exists>g. calc_g_all \<lparr>rows = [], width = 1, height = 1\<rparr> [0, 0, 0] (replicate 8 None) = Some g \<and>
        process_iteration 4 \<lparr>rows = [], width = 1, height = 1\<rparr> [0, 0, 0] [1] [0] g \<noteq> None) \<and>
   (\<exists>g. calc_g_all \<lparr>rows = [], width = 1, height = 3\<rparr> (replicate 9 0) (replicate 24 None) = Some g \<and>
        process_iteration 4 \<lparr>rows = [], width = 1, height = 3\<rparr> (replicate 9 0) [1, 0, 0] [0, 0, 0] g
          \<noteq> None)"
  using C9_accesses_in_bounds [of "\<lparr>rows = [], width = 1, height = 1\<rparr>" 4 "[0, 0, 0]" "[1]" "[0]"]
    C9_accesses_in_bounds [of "\<lparr>rows = [], width = 1, height = 3\<rparr>" 4 "replicate 9 0" "[1, 0, 0]"
      "[0, 0, 0]"]
  by simp blast

text \<open>
  Claim C3. For a grid of positive width and height whose colour samples lie in \<open>[0, 1]\<close>,
  every affinity written by the \<^verbatim>\<open>calc_g\<close> loops lies in \<open>[0, 1]\<close>; an iteration step maps
  a strength buffer with all magnitudes at most 1 to a buffer with all magnitudes at most
  1; and so the buffer that the loop of the run returns has all magnitudes at most 1 when
  the initial strengths have.
\<close>

theorem C3_magnitudes_stay_in_unit_interval:
  assumes "0 < width img" "0 < height img"
    and "length image_array = width img * height img * 3"
    and "\<forall>j<length image_array. 0 \<le> image_array ! j \<and> image_array ! j \<le> 1"
    and "length overlay_array_a = width img * height img"
    and "length overlay_array_b = width img * height img"
    and "\<forall>j<width img * height img. \<bar>overlay_array_a ! j\<bar> \<le> 1"
  shows "\<exists>g. calc_g_all img image_array (replicate (width img * height img * 8) None) = Some g \<and>
           (\<forall>j<length g. \<forall>c. g ! j = Some c \<longrightarrow> 0 \<le> c \<and> c \<le> 1) \<and>
           (\<forall>inp out. length inp = width img * height img \<and> length out = width img * height img \<and>
              (\<forall>j<width img * height img. \<bar>inp ! j\<bar> \<le> 1) \<longrightarrow>
              (\<exists>out' converged.
                 process_iteration N_THREADS img image_array inp out g = Some (out', converged) \<and>
                 length out' = width img * height img \<and>
                 (\<forall>j<width img * height img. \<bar>out' ! j\<bar> \<le> 1))) \<and>
           (\<exists>final. process_loop img image_array overlay_array_a overlay_array_b g 0 = Some final \<and>
              (\<forall>j<width img * height img. \<bar>final ! j\<bar> \<le> 1))"
proof -
  let ?w = "width img" and ?h = "height img"
  from calc_g_all_fresh [OF refl refl assms(3)]
  obtain g where g: "calc_g_all img image_array (replicate (?w * ?h * 8) None) = Some g"
    "length g = ?w * ?h * 8"
    "\<forall>p<?w * ?h. \<forall>d<8. g ! (p * 8 + d) =
       (if in_bounds ?w ?h (int (p mod ?w)) (int (p div ?w)) d
        then Some (affinity ?w image_array p d) else None)"
    by blast
  have u: "\<forall>p<?w * ?h. \<forall>d<8. in_bounds ?w ?h (int (p mod ?w)) (int (p div ?w)) d \<longrightarrow>
           (\<exists>c. g ! (p * 8 + d) = Some c \<and> 0 \<le> c \<and> c \<le> 1)"
    by (rule calc_g_all_unit [OF refl refl assms(3,4) g(1)])
  then have gu: "g_unit ?w ?h g" unfolding g_unit_def by fastforce
  have gd: "g_defined ?w ?h g" by (rule g_unit_defined [OF g(2) gu])
  have cells: "\<forall>j<length g. \<forall>c. g ! j = Some c \<longrightarrow> 0 \<le> c \<and> c \<le> 1"
  proof (intro allI impI)
    fix j c assume j: "j < length g" and c: "g ! j = Some c"
    have "j div 8 < ?w * ?h" "j mod 8 < 8" "j = j div 8 * 8 + j mod 8"
      using j g(2) by simp_all
    with g(3) u c show "0 \<le> c \<and> c \<le> 1"
      by (metis option.distinct(1) option.inject)
  qed
  have step: "\<exists>out' converged.
                 process_iteration N_THREADS img image_array inp out g = Some (out', converged) \<and>
                 length out' = ?w * ?h \<and> (\<forall>j<?w * ?h. \<bar>out' ! j\<bar> \<le> 1)"
    if "length inp = ?w * ?h \<and> length out = ?w * ?h \<and> (\<forall>j<?w * ?h. \<bar>inp ! j\<bar> \<le> 1)" for inp out
  proof -
    have "unit_field inp" using that by (simp add: unit_field_def)
    from step_cells_unit [OF gu this] that
    have "\<forall>j<?w * ?h. \<bar>step_cells ?w ?h g inp ! j\<bar> \<le> 1"
      by (simp add: unit_field_def length_step_cells)
    moreover have "process_iteration N_THREADS img image_array inp out g
        = Some (step_cells ?w ?h g inp, step_cells ?w ?h g inp = inp)"
      using that by (intro process_iteration_result [OF refl refl _ gd assms(1,2)])
                    (simp_all add: N_THREADS_def)
    ultimately show ?thesis by (simp add: length_step_cells)
  qed
  have "\<exists>final. process_loop img image_array overlay_array_a overlay_array_b g 0 = Some final \<and>
              (\<forall>j<?w * ?h. \<bar>final ! j\<bar> \<le> 1)"
  proof -
    have "0 < max_iter" by (simp add: max_iter_def)
    from process_loop_result [OF refl refl gd assms(1,2,5,6) this, of image_array]
    obtain k where "process_loop img image_array overlay_array_a overlay_array_b g 0
             = Some ((step_cells ?w ?h g ^^ k) overlay_array_a)" by blast
    moreover have "unit_field overlay_array_a" using assms(5,7) by (simp add: unit_field_def)
    from funpow_step_unit [OF gu this assms(5), of k]
    have "\<forall>j<?w * ?h. \<bar>(step_cells ?w ?h g ^^ k) overlay_array_a ! j\<bar> \<le> 1"
      by (simp add: unit_field_def)
    ultimately show ?thesis by blast
  qed
  with g(1) cells step show ?thesis by blast
qed

theorem C3_magnitudes_stay_in_unit_interval_witness:
  "\<exists>g. calc_g_all \<lparr>rows = [], width = 2, height = 1\<rparr> [0, 1 / 2, 1, 1, 0, 0] (replicate 16 None)
         = Some g \<and>
       (\<exists>final. process_loop \<lparr>rows = [], width = 2, height = 1\<rparr> [0, 1 / 2, 1, 1, 0, 0]
                  [1, 0] [0, 0] g 0 = Some final \<and>
          (\<forall>j<2. \<bar>final ! j\<bar> \<le> 1))"
proof -
  have "\<forall>j<length [0, 1 / 2, 1, 1, 0, 0 :: real].
          0 \<le> [0, 1 / 2, 1, 1, 0, 0 :: real] ! j \<and> [0, 1 / 2, 1, 1, 0, 0 :: real] ! j \<le> 1"
    by (simp add: All_less_Suc)
  moreover have "\<forall>j<length [1, 0 :: real]. \<bar>[1, 0 :: real] ! j\<bar> \<le> 1"
    by (simp add: All_less_Suc)
  ultimately show ?thesis
    using C3_magnitudes_stay_in_unit_interval [of "\<lparr>rows = [], width = 2, height = 1\<rparr>"
      "[0, 1 / 2, 1, 1, 0, 0]" "[1, 0]" "[0, 0]"]
    by simp blast
qed

text \<open>
  Claim C4. Under the same conditions, a cell \<open>p\<close> whose strength is \<open>1\<close> or \<open>- 1\<close> keeps
  exactly that value in the buffer written by any iteration step, and in the buffer that
  the loop of the run returns.
\<close>

theorem C4_seeds_never_change:
  assumes "0 < width img" "0 < height img"
    and "length image_array = width img * height img * 3"
    and "\<forall>j<length image_array. 0 \<le> image_array ! j \<and> image_array ! j \<le> 1"
    and "length overlay_array_a = width img * height img"
    and "length overlay_array_b = width img * height img"
    and "\<forall>j<width img * height img. \<bar>overlay_array_a ! j\<bar> \<le> 1"
    and "p < width img * height img"
    and "overlay_array_a ! p = 1 \<or> overlay_array_a ! p = - 1"
  shows "\<exists>g. calc_g_all img image_array (replicate (width img * height img * 8) None) = Some g \<and>
           (\<forall>inp out. length inp = width img * height img \<and> length out = width img * height img \<and>
              (\<forall>j<width img * height img. \<bar>inp ! j\<bar> \<le> 1) \<and> (inp ! p = 1 \<or> inp ! p = - 1) \<longrightarrow>
              (\<exists>out' converged.
                 process_iteration N_THREADS img image_array inp out g = Some (out', converged) \<and>
                 out' ! p = inp ! p)) \<and>
           (\<exists>final. process_loop img image_array overlay_array_a overlay_array_b g 0 = Some final \<and>
              final ! p = overlay_array_a ! p)"
proof -
  let ?w = "width img" and ?h = "height img"
  from calc_g_all_fresh [OF refl refl assms(3)]
  obtain g where g: "calc_g_all img image_array (replicate (?w * ?h * 8) None) = Some g"
    "length g = ?w * ?h * 8"
    by blast
  have "\<forall>p<?w * ?h. \<forall>d<8. in_bounds ?w ?h (int (p mod ?w)) (int (p div ?w)) d \<longrightarrow>
           (\<exists>c. g ! (p * 8 + d) = Some c \<and> 0 \<le> c \<and> c \<le> 1)"
    by (rule calc_g_all_unit [OF refl refl assms(3,4) g(1)])
  then have gu: "g_unit ?w ?h g" unfolding g_unit_def by fastforce
  have gd: "g_defined ?w ?h g" by (rule g_unit_defined [OF g(2) gu])
  have step: "\<exists>out' converged.
                 process_iteration N_THREADS img image_array inp out g = Some (out', converged) \<and>
                 out' ! p = inp ! p"
    if "length inp = ?w * ?h \<and> length out = ?w * ?h \<and> (\<forall>j<?w * ?h. \<bar>inp ! j\<bar> \<le> 1) \<and>
        (inp ! p = 1 \<or> inp ! p = - 1)" for inp out
  proof -
    have "unit_field inp" using that by (simp add: unit_field_def)
    moreover have "\<bar>inp ! p\<bar> = 1" using that by auto
    ultimately have "step_cells ?w ?h g inp ! p = inp ! p"
      using that by (intro step_cells_seed [OF gu _ _ assms(8)]) simp_all
    moreover have "process_iteration N_THREADS img image_array inp out g
        = Some (step_cells ?w ?h g inp, step_cells ?w ?h g inp = inp)"
      using that by (intro process_iteration_result [OF refl refl _ gd assms(1,2)])
                    (simp_all add: N_THREADS_def)
    ultimately show ?thesis by simp
  qed
  have "\<exists>final. process_loop img image_array overlay_array_a overlay_array_b g 0 = Some final \<and>
              final ! p = overlay_array_a ! p"
  proof -
    have "0 < max_iter" by (simp add: max_iter_def)
    from process_loop_result [OF refl refl gd assms(1,2,5,6) this, of image_array]
    obtain k where "process_loop img image_array overlay_array_a overlay_array_b g 0
             = Some ((step_cells ?w ?h g ^^ k) overlay_array_a)" by blast
    moreover have "unit_field overlay_array_a" using assms(5,7) by (simp add: unit_field_def)
    moreover have "\<bar>overlay_array_a ! p\<bar> = 1" using assms(9) by auto
    ultimately show ?thesis
      using funpow_step_seed [OF gu _ assms(5,8), of k] by simp
  qed
  with g(1) step show ?thesis by blast
qed

theorem C4_seeds_never_change_witness:
  "\<exists>g. calc_g_all \<lparr>rows = [], width = 2, height = 1\<rparr> [0, 1 / 2, 1, 1, 0, 0] (replicate 16 None)
         = Some g \<and>
       (\<exists>final. process_loop \<lparr>rows = [], width = 2, height = 1\<rparr> [0, 1 / 2, 1, 1, 0, 0]
                  [- 1, 0] [0, 0] g 0 = Some final \<and> final ! 0 = - 1)"
proof -
  have "\<forall>j<length [0, 1 / 2, 1, 1, 0, 0 :: real].
          0 \<le> [0, 1 / 2, 1, 1, 0, 0 :: real] ! j \<and> [0, 1 / 2, 1, 1, 0, 0 :: real] ! j \<le> 1"
    by (simp add: All_less_Suc)
  moreover have "\<forall>j<length [- 1, 0 :: real]. \<bar>[- 1, 0 :: real] ! j\<bar> \<le> 1"
    by (simp add: All_less_Suc)
  ultimately show ?thesis
    using C4_seeds_never_change [of "\<lparr>rows = [], width = 2, height = 1\<rparr>"
      "[0, 1 / 2, 1, 1, 0, 0]" "[- 1, 0]" "[0, 0]" 0]
    by simp blast
qed


lemma calc_g_two_pixels:
  "calc_g \<lparr>rows = [], width = 2, height = 1\<rparr> [0, 0, 0, c, 0, 0] 0 0 (replicate 16 None)
   = Some ((replicate 16 None)[4 := Some (1 - sqrtf (c * c) / maxC)])"
  by (simp add: calc_g_def upt_8 nx8_def ny8_def rd_def wr_def Let_def del: upt_Suc)

lemma sqrtf_4: "sqrtf 4 = 2"
proof -
  have s: "sqrt 4 = 2" using real_sqrt_abs [of 2] by simp
  have e: "\<lfloor>log 2 (2 :: real)\<rfloor> = 1" by simp
  have u: "2 powr (- 22 :: real) = 1 / 4194304"
    by (simp add: powr_minus powr_realpow [symmetric] inverse_eq_divide)
  have r: "round_even 8388608 = 8388608"
    using round_even_of_int [of 8388608] by simp
  show ?thesis
    by (simp add: sqrtf_def binary32_def binary_round_def s e u r Let_def)
qed

text \<open>
  \<^verbatim>\<open>calc_g\<close> applies no clamp. On colours outside \<open>[0, 1]\<close>, which \<^verbatim>\<open>process_file\<close> never
  produces, the stored weight is negative: two pixels at distance 2.
\<close>

lemma calc_g_stores_negative_weight:
  "calc_g \<lparr>rows = [], width = 2, height = 1\<rparr> [0, 0, 0, 2, 0, 0] 0 0 (replicate 16 None)
     = Some ((replicate 16 None)[4 := Some (1 - 2 / maxC)]) \<and>
   1 - 2 / maxC < 0"
  using calc_g_two_pixels [of 2] by (simp add: sqrtf_4 maxC_value)



lemma upt_9: "[0..<9] = [0, 1, 2, 3, 4, 5, 6, 7, 8]"
  by code_simp






















text \<open>
  Claim C8. \<^verbatim>\<open>blur_image_array\<close> replaces every channel of every pixel by the sum of that
  channel over the pixel itself and its in-bounds neighbours among the eight, all read
  from the array as it was before the pass, divided by the number of contributing pixels;
  that number is 9 for an interior pixel and less than 9 on the border, and the pixel
  itself always contributes. (In \<^verbatim>\<open>process_file\<close> the pass is called once, between the
  initialisation and the \<^verbatim>\<open>calc_g\<close> loops.)
\<close>

theorem C8_blur_is_mean_of_neighborhood:
  assumes "length array = width img * height img * 3"
  shows "\<exists>out. blur_image_array img array = Some out \<and> length out = length array \<and>
           (\<forall>j<length array.
              out ! j = (\<Sum>i\<leftarrow>contributors (width img) (height img) (j div 3).
                             array ! (neighbor9 (width img) (j div 3) i * 3 + j mod 3))
                         / real (length (contributors (width img) (height img) (j div 3)))) \<and>
           (\<forall>p<width img * height img.
              0 \<in> set (contributors (width img) (height img) p) \<and>
              (1 \<le> p mod width img \<and> p mod width img + 1 < width img \<and>
               1 \<le> p div width img \<and> p div width img + 1 < height img \<longrightarrow>
                 length (contributors (width img) (height img) p) = 9) \<and>
              (p mod width img = 0 \<or> p mod width img + 1 = width img \<or>
               p div width img = 0 \<or> p div width img + 1 = height img \<longrightarrow>
                 length (contributors (width img) (height img) p) < 9))"
proof -
  from blur_image_array_result [OF refl refl assms]
  obtain out where out: "blur_image_array img array = Some out"
    "length out = width img * height img * 3"
    "\<forall>j<width img * height img * 3. out ! j = blur_mean (width img) (height img) array j"
    by blast
  have "\<forall>j<length array.
              out ! j = (\<Sum>i\<leftarrow>contributors (width img) (height img) (j div 3).
                             array ! (neighbor9 (width img) (j div 3) i * 3 + j mod 3))
                         / real (length (contributors (width img) (height img) (j div 3)))"
    using out(3) assms by (simp add: blur_mean_def)
  moreover have "\<forall>p<width img * height img.
              0 \<in> set (contributors (width img) (height img) p) \<and>
              (1 \<le> p mod width img \<and> p mod width img + 1 < width img \<and>
               1 \<le> p div width img \<and> p div width img + 1 < height img \<longrightarrow>
                 length (contributors (width img) (height img) p) = 9) \<and>
              (p mod width img = 0 \<or> p mod width img + 1 = width img \<or>
               p div width img = 0 \<or> p div width img + 1 = height img \<longrightarrow>
                 length (contributors (width img) (height img) p) < 9)"
  proof (intro allI impI conjI)
    fix p assume p: "p < width img * height img"
    show "0 \<in> set (contributors (width img) (height img) p)" by (rule contributors_self [OF p])
    show "length (contributors (width img) (height img) p) = 9"
      if "1 \<le> p mod width img \<and> p mod width img + 1 < width img \<and>
          1 \<le> p div width img \<and> p div width img + 1 < height img"
      using that by (intro contributors_interior) simp_all
    show "length (contributors (width img) (height img) p) < 9"
      if "p mod width img = 0 \<or> p mod width img + 1 = width img \<or>
          p div width img = 0 \<or> p div width img + 1 = height img"
      using that by (rule contributors_border [OF p])
  qed
  ultimately show ?thesis using out(1,2) assms by simp
qed

theorem C8_blur_is_mean_of_neighborhood_witness:
  "\<exists>out. blur_image_array \<lparr>rows = [], width = 2, height = 1\<rparr> [0, 0, 0, 1, 1, 1] = Some out \<and>
         out ! 0 = 1 / 2 \<and> out ! 3 = 1 / 2"
proof -
  let ?img = "\<lparr>rows = [], width = 2, height = 1\<rparr>"
  let ?a = "[0, 0, 0, 1, 1, 1 :: real]"
  have c: "contributors 2 (Suc 0) 0 = [0, 5]" "contributors 2 (Suc 0) (Suc 0) = [0, 4]"
    by (simp_all add: contributors_def in_bounds9_def upt_9 nx9_def ny9_def del: upt_Suc)
  have len: "length ?a = width ?img * height ?img * 3" by simp
  from C8_blur_is_mean_of_neighborhood [OF len]
  obtain out where o: "blur_image_array ?img ?a = Some out"
    "\<forall>j<length ?a.
        out ! j = (\<Sum>i\<leftarrow>contributors (width ?img) (height ?img) (j div 3).
                       ?a ! (neighbor9 (width ?img) (j div 3) i * 3 + j mod 3))
                   / real (length (contributors (width ?img) (height ?img) (j div 3)))"
    by blast
  have "out ! 0 = 1 / 2"
    using o(2) [rule_format, of 0] by (simp add: c neighbor9_def nx9_def ny9_def)
  moreover have "out ! 3 = 1 / 2"
    using o(2) [rule_format, of 3] by (simp add: c neighbor9_def nx9_def ny9_def)
  ultimately show ?thesis using o(1) by blast
qed

text \<open>
  Claim C10. After the initialisation loops, the strength of pixel \<open>(x, y)\<close> is \<open>0\<close> unless
  the overlay's alpha byte is strictly greater than 128; above 128 it is \<open>- 1\<close> when the
  red byte is strictly greater than the green byte plus 128 and \<open>1\<close> otherwise. So alpha
  exactly 128 leaves the pixel unlabelled, and an opaque pixel with red exactly green plus
  128 is foreground.
\<close>

theorem C10_seed_thresholds_are_strict:
  assumes "image_ok img" "image_ok overlay"
    and "width img \<le> width overlay" "height img \<le> height overlay"
    and "x < width img" "y < height img"
  shows "\<exists>image_array overlay_array_a.
           init_arrays img overlay
             (replicate (width img * height img * 3) 0, replicate (width img * height img) 0)
             = Some (image_array, overlay_array_a) \<and>
           overlay_array_a ! (y * width img + x)
             = (if 128 < uint (rows overlay ! y ! (4 * x + 3))
                then if uint (rows overlay ! y ! (4 * x + 1)) + 128 < uint (rows overlay ! y ! (4 * x))
                     then - 1 else 1
                else 0) \<and>
           (uint (rows overlay ! y ! (4 * x + 3)) = 128 \<longrightarrow>
              overlay_array_a ! (y * width img + x) = 0) \<and>
           (128 < uint (rows overlay ! y ! (4 * x + 3)) \<and>
            uint (rows overlay ! y ! (4 * x)) = uint (rows overlay ! y ! (4 * x + 1)) + 128 \<longrightarrow>
              overlay_array_a ! (y * width img + x) = 1)"
proof -
  let ?w = "width img" and ?h = "height img"
  let ?p = "y * ?w + x"
  have pl: "?p < ?w * ?h" by (rule cell_index_less [OF assms(5,6)])
  have pm: "?p mod ?w = x" "?p div ?w = y" using assms(5) by simp_all
  from init_arrays_result [OF assms(1,2) refl refl assms(3,4),
      of "replicate (?w * ?h * 3) 0" "replicate (?w * ?h) 0"]
  obtain ia a where r: "init_arrays img overlay (replicate (?w * ?h * 3) 0, replicate (?w * ?h) 0)
      = Some (ia, a)"
    "\<forall>j<?w * ?h. a ! j =
              (if 128 < uint (rows overlay ! (j div ?w) ! (4 * (j mod ?w) + 3))
               then seed_of overlay (j mod ?w) (j div ?w) else replicate (?w * ?h) 0 ! j)"
    by auto
  have "a ! ?p = (if 128 < uint (rows overlay ! y ! (4 * x + 3))
               then seed_of overlay x y else 0)"
    using r(2) [rule_format, OF pl] pl unfolding pm by simp
  then have "a ! ?p = (if 128 < uint (rows overlay ! y ! (4 * x + 3))
                then if uint (rows overlay ! y ! (4 * x + 1)) + 128 < uint (rows overlay ! y ! (4 * x))
                     then - 1 else 1
                else 0)"
    by (simp add: seed_of_def Let_def)
  with r(1) show ?thesis by auto
qed

theorem C10_seed_thresholds_are_strict_witness:
  "(\<exists>image_array overlay_array_a.
      init_arrays \<lparr>rows = [[10, 20, 30, 0]], width = 1, height = 1\<rparr>
        \<lparr>rows = [[255, 0, 0, 128]], width = 1, height = 1\<rparr> (replicate 3 0, replicate 1 0)
        = Some (image_array, overlay_array_a) \<and> overlay_array_a ! 0 = 0) \<and>
   (\<exists>image_array overlay_array_a.
      init_arrays \<lparr>rows = [[10, 20, 30, 0]], width = 1, height = 1\<rparr>
        \<lparr>rows = [[200, 72, 0, 129]], width = 1, height = 1\<rparr> (replicate 3 0, replicate 1 0)
        = Some (image_array, overlay_array_a) \<and> overlay_array_a ! 0 = 1)"
  using C10_seed_thresholds_are_strict [of "\<lparr>rows = [[10, 20, 30, 0]], width = 1, height = 1\<rparr>"
      "\<lparr>rows = [[255, 0, 0, 128]], width = 1, height = 1\<rparr>" 0 0]
    C10_seed_thresholds_are_strict [of "\<lparr>rows = [[10, 20, 30, 0]], width = 1, height = 1\<rparr>"
      "\<lparr>rows = [[200, 72, 0, 129]], width = 1, height = 1\<rparr>" 0 0]
  by (simp add: image_ok_def)

end
